theory Spec2Isabelle
  imports Main
begin

section \<open>Python strings\<close>

text \<open>
  A Python \<open>str\<close> is a sequence of Unicode code points, and \<open>len\<close>, slicing and
  \<open>strip\<close> count code points. A string is therefore a list of code points
  (natural numbers); ASCII literals are written through \<open>of_ascii\<close>.
\<close>

type_synonym ustr = "nat list"

definition of_ascii :: "string \<Rightarrow> ustr" where
  "of_ascii s = map of_char s"

text \<open>
  \<open>str.strip()\<close> without argument and the regular expression class \<open>\s\<close> both use
  CPython's whitespace table: U+0009..U+000D, U+001C..U+0020, U+0085, U+00A0, U+1680,
  U+2000..U+200A, U+2028, U+2029, U+202F, U+205F and U+3000.
\<close>

definition isspace_cp :: "nat \<Rightarrow> bool" where
  "isspace_cp c =
     ((0x09 \<le> c \<and> c \<le> 0x0D) \<or> (0x1C \<le> c \<and> c \<le> 0x20) \<or> c = 0x85 \<or> c = 0xA0 \<or>
      c = 0x1680 \<or> (0x2000 \<le> c \<and> c \<le> 0x200A) \<or> c = 0x2028 \<or> c = 0x2029 \<or>
      c = 0x202F \<or> c = 0x205F \<or> c = 0x3000)"

text \<open>
  The digit tables of the Unicode database are not part of the program: \<open>str.isdigit\<close>
  reads the property Numeric_Type in {Digit, Decimal}, the class \<open>\d\<close> reads the general
  category Nd. Both are parameters of the model.
\<close>

record ucd =
  isdigit_cp :: "nat \<Rightarrow> bool"
  isdecimal_cp :: "nat \<Rightarrow> bool"

definition ascii_ucd :: ucd where
  "ascii_ucd = \<lparr> isdigit_cp = (\<lambda>c. 48 \<le> c \<and> c \<le> 57), isdecimal_cp = (\<lambda>c. 48 \<le> c \<and> c \<le> 57) \<rparr>"

definition str_lstrip :: "ustr \<Rightarrow> ustr" where
  "str_lstrip s = dropWhile isspace_cp s"

definition str_rstrip :: "ustr \<Rightarrow> ustr" where
  "str_rstrip s = rev (dropWhile isspace_cp (rev s))"

definition str_strip :: "ustr \<Rightarrow> ustr" where
  "str_strip s = str_rstrip (str_lstrip s)"

definition str_startswith :: "ustr \<Rightarrow> ustr \<Rightarrow> bool" where
  "str_startswith s p = (take (length p) s = p)"

definition str_endswith :: "ustr \<Rightarrow> ustr \<Rightarrow> bool" where
  "str_endswith s p = (length p \<le> length s \<and> drop (length s - length p) s = p)"

text \<open>\<open>s.find(sub)\<close>: the lowest index where \<open>sub\<close> occurs; \<open>None\<close> for Python's -1.\<close>

fun str_find :: "ustr \<Rightarrow> ustr \<Rightarrow> nat option" where
  "str_find [] sub = (if sub = [] then Some 0 else None)"
| "str_find (c # s) sub =
     (if str_startswith (c # s) sub then Some 0 else map_option Suc (str_find s sub))"

text \<open>\<open>s.rfind(sub)\<close>: the highest index where \<open>sub\<close> occurs.\<close>

fun str_rfind :: "ustr \<Rightarrow> ustr \<Rightarrow> nat option" where
  "str_rfind [] sub = (if sub = [] then Some 0 else None)"
| "str_rfind (c # s) sub =
     (case str_rfind s sub of
        Some i \<Rightarrow> Some (Suc i)
      | None \<Rightarrow> if str_startswith (c # s) sub then Some 0 else None)"

text \<open>\<open>sub in s\<close>.\<close>

definition str_contains :: "ustr \<Rightarrow> ustr \<Rightarrow> bool" where
  "str_contains s sub = (str_find s sub \<noteq> None)"

text \<open>
  \<open>s.split(sep)\<close> for a separator that is not empty (every separator of the program
  is a literal): the occurrences are found from the left and do not overlap. Python
  raises ValueError on an empty separator; the model returns \<open>[s]\<close> there.
\<close>

function str_split :: "ustr \<Rightarrow> ustr \<Rightarrow> ustr list" where
  "str_split s sep =
     (if sep = [] then [s]
      else case str_find s sep of
             None \<Rightarrow> [s]
           | Some i \<Rightarrow> take i s # str_split (drop (i + length sep) s) sep)"
  by pat_completeness auto

termination str_split
proof (relation "measure (\<lambda>(s, sep). length s)")
  show "wf (measure (\<lambda>(s, sep). length s))" by simp
next
  fix s sep :: ustr and i :: nat
  assume sep: "sep \<noteq> []" and found: "str_find s sep = Some i"
  have bound: "str_find t sep = Some j \<Longrightarrow> j + length sep \<le> length t" for t j
  proof (induction t arbitrary: j)
    case Nil
    then show ?case by (simp split: if_splits)
  next
    case (Cons c t)
    show ?case
    proof (cases "str_startswith (c # t) sep")
      case True
      then have "length (take (length sep) (c # t)) = length sep"
        unfolding str_startswith_def by simp
      then have "length sep \<le> length (c # t)"
        by simp
      with True Cons.prems show ?thesis by simp
    next
      case False
      with Cons.prems obtain k where "str_find t sep = Some k" "j = Suc k" by auto
      with Cons.IH show ?thesis by simp
    qed
  qed
  from bound[OF found] sep have "i + length sep \<le> length s" "0 < length sep"
    by auto
  then have "length s - (i + length sep) < length s"
    by arith
  then show "((drop (i + length sep) s, sep), (s, sep)) \<in> measure (\<lambda>(s, sep). length s)"
    by simp
qed

declare str_split.simps [simp del]

text \<open>\<open>s.split(sep, 1)\<close> and \<open>s.rsplit(sep, 1)\<close>: at most one cut, at the first or the last occurrence.\<close>

definition str_split1 :: "ustr \<Rightarrow> ustr \<Rightarrow> ustr list" where
  "str_split1 s sep =
     (case str_find s sep of None \<Rightarrow> [s] | Some i \<Rightarrow> [take i s, drop (i + length sep) s])"

definition str_rsplit1 :: "ustr \<Rightarrow> ustr \<Rightarrow> ustr list" where
  "str_rsplit1 s sep =
     (case str_rfind s sep of None \<Rightarrow> [s] | Some i \<Rightarrow> [take i s, drop (i + length sep) s])"

text \<open>\<open>sep.join(xs)\<close>.\<close>

fun str_join :: "ustr \<Rightarrow> ustr list \<Rightarrow> ustr" where
  "str_join sep [] = []"
| "str_join sep [x] = x"
| "str_join sep (x # y # xs) = x @ sep @ str_join sep (y # xs)"

text \<open>\<open>s.isdigit()\<close>: at least one character, and all of them digits.\<close>

definition str_isdigit :: "ucd \<Rightarrow> ustr \<Rightarrow> bool" where
  "str_isdigit db s = (s \<noteq> [] \<and> list_all (isdigit_cp db) s)"

section \<open>Regular expressions\<close>

text \<open>
  The one pattern of the program uses character classes, concatenation, \<open>*\<close> and \<open>+\<close>.
  Matching is by derivatives, so that it does not depend on the classes being disjoint.
\<close>

datatype rx = Nul | Eps | Cls "nat \<Rightarrow> bool" | Alt rx rx | Seq rx rx | Star rx

fun nullable :: "rx \<Rightarrow> bool" where
  "nullable Nul = False"
| "nullable Eps = True"
| "nullable (Cls p) = False"
| "nullable (Alt a b) = (nullable a \<or> nullable b)"
| "nullable (Seq a b) = (nullable a \<and> nullable b)"
| "nullable (Star a) = True"

fun deriv :: "nat \<Rightarrow> rx \<Rightarrow> rx" where
  "deriv c Nul = Nul"
| "deriv c Eps = Nul"
| "deriv c (Cls p) = (if p c then Eps else Nul)"
| "deriv c (Alt a b) = Alt (deriv c a) (deriv c b)"
| "deriv c (Seq a b) =
     (if nullable a then Alt (Seq (deriv c a) b) (deriv c b) else Seq (deriv c a) b)"
| "deriv c (Star a) = Seq (deriv c a) (Star a)"

definition rx_fullmatch :: "rx \<Rightarrow> ustr \<Rightarrow> bool" where
  "rx_fullmatch r s = nullable (foldl (\<lambda>r c. deriv c r) r s)"

definition rx_plus :: "rx \<Rightarrow> rx" where
  "rx_plus r = Seq r (Star r)"

text \<open>
  \<open>re.match('^ r $', s)\<close>: the match starts at the beginning, and \<open>$\<close> holds at the end of
  the string or just before a newline that ends it.
\<close>

definition re_match_anchored :: "rx \<Rightarrow> ustr \<Rightarrow> bool" where
  "re_match_anchored r s =
     (rx_fullmatch r s \<or> (s \<noteq> [] \<and> last s = 0x0A \<and> rx_fullmatch r (butlast s)))"

text \<open>
  The words that a pattern matches, to state what the matcher accepts: \<open>star L\<close> is
  any number of words of \<open>L\<close> in a row.
\<close>

inductive_set star :: "ustr set \<Rightarrow> ustr set" for L :: "ustr set" where
  star_nil: "[] \<in> star L"
| star_step: "u \<in> L \<Longrightarrow> v \<in> star L \<Longrightarrow> u @ v \<in> star L"

fun lang :: "rx \<Rightarrow> ustr set" where
  "lang Nul = {}"
| "lang Eps = {[]}"
| "lang (Cls p) = {[c] | c. p c}"
| "lang (Alt a b) = lang a \<union> lang b"
| "lang (Seq a b) = {u @ v | u v. u \<in> lang a \<and> v \<in> lang b}"
| "lang (Star a) = star (lang a)"

section \<open>The literals of the classifier\<close>

text \<open>
  The literals are the code points that the source file holds between the quotes, as
  they stand in the file: seven code points for the prompt corner that ends in \<open>#\<close>
  (U+00E2 U+201D U+201D U+00E2 U+201D U+20AC U+0023), nine for the top bar of the
  prompt, four for the skull, and the members of the bracket class of the error pattern.
  The proofs of the general theorems below do not unfold these four definitions; only
  the examples evaluate them.
\<close>

definition lit_corner :: ustr where
  "lit_corner = [0xE2, 0x201D, 0x201D, 0xE2, 0x201D, 0x20AC, 0x23]"

definition lit_top :: ustr where
  "lit_top = [0xE2, 0x201D, 0x152, 0xE2, 0x201D, 0x20AC, 0xE2, 0x201D, 0x20AC]"

definition lit_skull :: ustr where
  "lit_skull = [0xF0, 0x178, 0x2019, 0x20AC]"

definition lit_error_glyphs :: ustr where
  "lit_error_glyphs =
     [0xE2, 0xA8, 0xAF, 0xE2, 0x153, 0x2014, 0xC3, 0x2014, 0xE2, 0x153, 0x2DC, 0xE2, 0x152]"

text \<open>The pattern \<open>^\s*\d+\s*[...]\s*$\<close> of \<open>_is_empty_prompt\<close>.\<close>

definition error_pattern :: "ucd \<Rightarrow> rx" where
  "error_pattern db =
     Seq (Star (Cls isspace_cp))
       (Seq (rx_plus (Cls (isdecimal_cp db)))
         (Seq (Star (Cls isspace_cp))
           (Seq (Cls (\<lambda>c. c \<in> set lit_error_glyphs))
             (Star (Cls isspace_cp)))))"

section \<open>The line classifiers\<close>

text \<open>\<open>_looks_like_prompt\<close>.\<close>

definition looks_like_prompt :: "ustr \<Rightarrow> bool" where
  "looks_like_prompt line_content =
     (if line_content = [] then False
      else let line = str_strip line_content in
        (str_startswith line lit_corner \<or>
         str_endswith line (of_ascii ''$ '') \<or>
         str_endswith line (of_ascii ''# '') \<or>
         str_startswith line lit_top \<or>
         (str_contains line lit_top \<and> str_contains line lit_skull)))"

text \<open>\<open>_is_partial_command\<close>.\<close>

definition is_partial_command :: "ucd \<Rightarrow> ustr \<Rightarrow> bool" where
  "is_partial_command db line_content =
     (if line_content = [] then True
      else if looks_like_prompt line_content then False
      else let stripped = str_strip line_content in
        if length stripped \<le> 2 \<and> \<not> str_isdigit db stripped then True
        else if str_endswith stripped (of_ascii ''_'') \<or> str_endswith stripped (of_ascii ''|'')
        then True
        else False)"

text \<open>
  \<open>_is_empty_prompt\<close>. The loop over the two prompt suffixes is \<open>suffix_loop\<close>; it returns
  at the first suffix whose remainder is empty or an error code.
\<close>

fun suffix_loop :: "ucd \<Rightarrow> ustr \<Rightarrow> ustr list \<Rightarrow> bool" where
  "suffix_loop db stripped [] = False"
| "suffix_loop db stripped (prompt_suffix # rest) =
     (if str_contains stripped prompt_suffix then
        (let parts = str_rsplit1 stripped prompt_suffix in
         if length parts = 2 then
           (let after_prompt = str_strip (parts ! 1) in
            if after_prompt = [] then True
            else if re_match_anchored (error_pattern db) after_prompt then True
            else suffix_loop db stripped rest)
         else suffix_loop db stripped rest)
      else suffix_loop db stripped rest)"

definition is_empty_prompt :: "ucd \<Rightarrow> ustr \<Rightarrow> bool" where
  "is_empty_prompt db line_content =
     (if line_content = [] then True
      else let stripped = str_strip line_content in
        if stripped = lit_corner then True
        else if str_startswith stripped lit_corner \<and>
                (let after_prompt = str_strip (drop 3 stripped) in
                 after_prompt = [] \<or> re_match_anchored (error_pattern db) after_prompt)
        then True
        else suffix_loop db stripped [of_ascii ''$ '', of_ascii ''# ''])"

text \<open>
  \<open>_is_context_command\<close>. The inner \<open>for\<close> loop with \<open>break\<close> takes the first of the two
  suffixes that ends the line; its \<open>else\<close> branch gives the empty command.
\<close>

definition is_context_command :: "ustr \<Rightarrow> bool" where
  "is_context_command line_content =
     (if line_content = [] then False
      else let stripped = str_strip line_content in
        if looks_like_prompt stripped then
          (let cmd_part =
             (if str_contains stripped lit_corner
              then str_strip (last (str_split1 stripped lit_corner))
              else if str_endswith stripped (of_ascii ''$ '') \<or> str_endswith stripped (of_ascii ''# '')
              then (case filter (str_endswith stripped) [of_ascii ''$ '', of_ascii ''# ''] of
                      prompt_end # _ \<Rightarrow> str_strip (take (length stripped - length prompt_end) stripped)
                    | [] \<Rightarrow> [])
              else [])
           in str_startswith cmd_part (of_ascii ''context''))
        else str_startswith stripped (of_ascii ''context''))"

section \<open>The filter loop\<close>

text \<open>
  The body of the loop \<open>for line in lines\<close> of \<open>_on_contents_changed\<close> (the same loop runs
  in \<open>_start_logging\<close>). Its state is the flag \<open>skip_until_prompt\<close> and the list
  \<open>filtered_lines\<close>.
\<close>

definition filter_step :: "ucd \<Rightarrow> bool \<times> ustr list \<Rightarrow> ustr \<Rightarrow> bool \<times> ustr list" where
  "filter_step db st line =
     (let skip_until_prompt = fst st; filtered_lines = snd st; stripped = str_strip line in
      if is_context_command stripped then (True, filtered_lines)
      else if skip_until_prompt then
        (if looks_like_prompt stripped then
           (False, if \<not> is_empty_prompt db stripped
                   then filtered_lines @ [str_rstrip line] else filtered_lines)
         else (True, filtered_lines))
      else if stripped \<noteq> [] \<and> \<not> str_startswith stripped (of_ascii ''==='') \<and>
              \<not> is_empty_prompt db stripped \<and> \<not> is_partial_command db stripped
      then (False, filtered_lines @ [str_rstrip line])
      else (False, filtered_lines))"

definition filter_lines :: "ucd \<Rightarrow> ustr list \<Rightarrow> ustr list" where
  "filter_lines db lines = snd (foldl (filter_step db) (False, []) lines)"

section \<open>Sessions, queues and the content-change handler\<close>

text \<open>The dictionary that \<open>_start_logging\<close> stores for a terminal in \<open>self.loggers\<close>.\<close>

record logger_info =
  filepath :: ustr
  sanitized_filepath :: ustr
  terminal_id :: ustr
  last_col :: int
  last_row :: int
  contents_handler :: nat

text \<open>
  Both queues are \<open>queue.Queue(maxsize=1000)\<close>. Every item the program enqueues is a pair
  of strings, or \<open>None\<close>, the sentinel of \<open>unload\<close>; the branch \<open>len(item) != 2\<close> of the
  consumers is therefore never taken.

  \<open>put(item, timeout=0.1)\<close> appends the item when a slot is free within the timeout and
  raises \<open>queue.Full\<close> otherwise, leaving the queue as it is. The consumers run in other
  threads, so the queue that \<open>queue_put\<close> sees stands for the queue over the whole wait:
  it is full when no slot came free before the timeout. \<open>None\<close> is \<open>queue.Full\<close>.
\<close>

type_synonym work_item = "(ustr \<times> ustr) option"

definition maxsize :: nat where
  "maxsize = 1000"

definition queue_put :: "work_item list \<Rightarrow> work_item \<Rightarrow> work_item list option" where
  "queue_put q item = (if length q < maxsize then Some (q @ [item]) else None)"

record plugin =
  loggers :: "nat \<rightharpoonup> logger_info"
  write_queue :: "work_item list"
  sanitize_queue :: "work_item list"
  shutdown_writer :: bool

text \<open>
  What the terminal widget answers during one call of the handler. A call of the host
  may raise; \<open>get_cursor_position\<close> may also return something that is falsy or not a
  pair (\<open>Returns None\<close>). \<open>get_text_range\<close> stands for the text that either
  \<open>get_text_range\<close> or \<open>get_text_range_format\<close> returns in \<open>content[0]\<close>, the empty string
  when \<open>content\<close> or \<open>content[0]\<close> is falsy.
\<close>

datatype 'a outcome = Raises | Returns 'a

record vte_view =
  get_cursor_position :: "(int \<times> int) option outcome"
  get_column_count :: "int outcome"
  get_text_range :: "int \<Rightarrow> int \<Rightarrow> int \<Rightarrow> int \<Rightarrow> ustr outcome"

text \<open>\<open>_get_content\<close>: the text, or the empty string on any failure.\<close>

definition get_content :: "vte_view \<Rightarrow> int \<Rightarrow> int \<Rightarrow> int \<Rightarrow> int \<Rightarrow> ustr" where
  "get_content view row_start col_start row_end col_end =
     (case get_text_range view row_start col_start row_end col_end of
        Raises \<Rightarrow> []
      | Returns content \<Rightarrow> content)"

text \<open>
  The two \<open>put\<close> calls of \<open>_on_contents_changed\<close> inside \<open>try ... except queue.Full: pass\<close>:
  when the first raises, the second is not reached.
\<close>

definition enqueue_chunk :: "plugin \<Rightarrow> logger_info \<Rightarrow> ustr \<Rightarrow> plugin" where
  "enqueue_chunk self logger_info content_to_log =
     (case queue_put (write_queue self) (Some (filepath logger_info, content_to_log)) of
        None \<Rightarrow> self
      | Some wq \<Rightarrow>
        (case queue_put (sanitize_queue self)
                 (Some (content_to_log, sanitized_filepath logger_info)) of
           None \<Rightarrow> self\<lparr>write_queue := wq\<rparr>
         | Some sq \<Rightarrow> self\<lparr>write_queue := wq, sanitize_queue := sq\<rparr>))"

text \<open>
  Lines 296 to 338 of \<open>_on_contents_changed\<close>: the content from the last logged row to
  the row of the cursor is read, split into lines, filtered and, when lines are left,
  queued as one chunk.
\<close>

definition log_new_content ::
  "ucd \<Rightarrow> plugin \<Rightarrow> logger_info \<Rightarrow> vte_view \<Rightarrow> int \<Rightarrow> int \<Rightarrow> plugin" where
  "log_new_content db self logger_info view current_row columns =
     (let start_row = max 0 (if last_row logger_info \<ge> 0 then last_row logger_info else 0);
          end_row = current_row;
          new_content = get_content view start_row 0 end_row columns
      in if new_content \<noteq> [] then
           (let lines = str_split new_content [0x0A];
                filtered_lines = filter_lines db lines
            in if filtered_lines \<noteq> []
               then enqueue_chunk self logger_info (str_join [0x0A] filtered_lines @ [0x0A])
               else self)
         else self)"

text \<open>
  \<open>_on_contents_changed\<close>. The whole body stands in \<open>try ... except: pass\<close>, and every call
  that can raise comes before the first change of the state, so an exception leaves the
  state as it was. The last statement stores the row of the cursor as \<open>last_row\<close>.
\<close>

definition on_contents_changed :: "ucd \<Rightarrow> plugin \<Rightarrow> nat \<Rightarrow> vte_view \<Rightarrow> plugin" where
  "on_contents_changed db self vte_terminal view =
     (case loggers self vte_terminal of
        None \<Rightarrow> self
      | Some logger_info \<Rightarrow>
        (case get_cursor_position view of
           Raises \<Rightarrow> self
         | Returns None \<Rightarrow> self
         | Returns (Some (current_col, current_row)) \<Rightarrow>
           if current_row \<le> last_row logger_info then self
           else
             (case get_column_count view of
                Raises \<Rightarrow> self
              | Returns columns \<Rightarrow>
                let current_line = get_content view current_row 0 current_row columns in
                if current_line \<noteq> [] \<and> looks_like_prompt (str_strip current_line) then
                  (let self1 = log_new_content db self logger_info view current_row columns
                   in self1\<lparr>loggers :=
                        (loggers self1)(vte_terminal \<mapsto> logger_info\<lparr>last_row := current_row\<rparr>)\<rparr>)
                else self)))"

text \<open>A sequence of content-change notifications, each for some terminal.\<close>

definition contents_changed_seq :: "ucd \<Rightarrow> plugin \<Rightarrow> (nat \<times> vte_view) list \<Rightarrow> plugin" where
  "contents_changed_seq db self events =
     foldl (\<lambda>s ev. on_contents_changed db s (fst ev) (snd ev)) self events"

text \<open>\<open>_write_to_log\<close>.\<close>

definition write_to_log :: "plugin \<Rightarrow> nat \<Rightarrow> ustr \<Rightarrow> plugin" where
  "write_to_log self vte_terminal text =
     (if text = [] \<or> str_strip text = [] then self
      else case loggers self vte_terminal of
        None \<Rightarrow> self
      | Some logger_info \<Rightarrow>
        if filepath logger_info = [] then self
        else let clean_text = str_strip text in
          if clean_text \<noteq> [] then
            (case queue_put (write_queue self) (Some (filepath logger_info, clean_text @ [0x0A])) of
               None \<Rightarrow> self
             | Some wq \<Rightarrow> self\<lparr>write_queue := wq\<rparr>)
          else self)"

section \<open>The writer thread\<close>

text \<open>
  \<open>_async_writer\<close> keeps the dictionary \<open>open_files\<close> from a path to its open file
  object. File objects are numbered as they are opened. The model keeps the content of
  every file and a log of the calls made to the operating system.

  Which calls fail during the handling of one item is given from outside
  (\<open>io_faults\<close>); \<open>written\<close> is the number of characters of the item that reached the
  file when \<open>write\<close> or \<open>flush\<close> failed.
\<close>

datatype io_event =
  Makedirs ustr | Open_append ustr | Write nat ustr | Flush nat | Close nat

record io_faults =
  makedirs_fails :: bool
  open_fails :: bool
  write_fails :: bool
  flush_fails :: bool
  written :: nat

record writer =
  open_files :: "ustr \<rightharpoonup> nat"
  next_handle :: nat
  files :: "ustr \<Rightarrow> ustr"
  io_log :: "io_event list"

text \<open>\<open>os.path.dirname\<close> (posixpath).\<close>

definition dirname :: "ustr \<Rightarrow> ustr" where
  "dirname p =
     (let i = (case str_rfind p [0x2F] of None \<Rightarrow> 0 | Some j \<Rightarrow> j + 1);
          head = take i p
      in if head \<noteq> [] \<and> head \<noteq> replicate (length head) 0x2F
         then rev (dropWhile (\<lambda>c. c = 0x2F) (rev head))
         else head)"

text \<open>
  The statements of the inner \<open>try\<close>: \<open>Inl\<close> is the state at the point where a call
  raised, \<open>Inr\<close> the state after the statement.
\<close>

definition writer_open :: "io_faults \<Rightarrow> writer \<Rightarrow> ustr \<Rightarrow> writer + writer" where
  "writer_open faults w fpath =
     (case open_files w fpath of
        Some fd \<Rightarrow> Inr w
      | None \<Rightarrow>
        (let w1 = w\<lparr>io_log := io_log w @ [Makedirs (dirname fpath)]\<rparr> in
         if makedirs_fails faults then Inl w1
         else
           (let w2 = w1\<lparr>io_log := io_log w1 @ [Open_append fpath]\<rparr> in
            if open_fails faults then Inl w2
            else Inr (w2\<lparr>open_files := (open_files w2)(fpath \<mapsto> next_handle w2),
                         next_handle := next_handle w2 + 1\<rparr>))))"

definition writer_write :: "io_faults \<Rightarrow> writer \<Rightarrow> ustr \<Rightarrow> ustr \<Rightarrow> writer + writer" where
  "writer_write faults w fpath content =
     (case open_files w fpath of
        None \<Rightarrow> Inl w
      | Some fd \<Rightarrow>
        (let w1 = w\<lparr>io_log := io_log w @ [Write fd content]\<rparr> in
         if write_fails faults
         then Inl (w1\<lparr>files := (files w1)(fpath := files w1 fpath @ take (written faults) content)\<rparr>)
         else
           (let w2 = w1\<lparr>io_log := io_log w1 @ [Flush fd]\<rparr> in
            if flush_fails faults
            then Inl (w2\<lparr>files := (files w2)(fpath := files w2 fpath @ take (written faults) content)\<rparr>)
            else Inr (w2\<lparr>files := (files w2)(fpath := files w2 fpath @ content)\<rparr>))))"

text \<open>
  The handler \<open>except Exception\<close>: the file object of this path, when there is one, is
  closed (an error of \<open>close\<close> is ignored) and its entry deleted.
\<close>

definition writer_except :: "writer \<Rightarrow> ustr \<Rightarrow> writer" where
  "writer_except w fpath =
     (case open_files w fpath of
        None \<Rightarrow> w
      | Some fd \<Rightarrow> w\<lparr>io_log := io_log w @ [Close fd], open_files := (open_files w)(fpath := None)\<rparr>)"

text \<open>
  The handling of one item \<open>(filepath, content)\<close> with both parts non-empty
  (\<open>fpath\<close> is the source's \<open>filepath\<close>).
\<close>

definition writer_item :: "io_faults \<Rightarrow> writer \<Rightarrow> ustr \<times> ustr \<Rightarrow> writer" where
  "writer_item faults w item =
     (let fpath = fst item; content = snd item in
      case writer_open faults w fpath of
        Inl w1 \<Rightarrow> writer_except w1 fpath
      | Inr w1 \<Rightarrow>
        (case writer_write faults w1 fpath content of
           Inl w2 \<Rightarrow> writer_except w2 fpath
         | Inr w2 \<Rightarrow> w2))"

text \<open>
  One pass through the body of \<open>while not self._shutdown_writer\<close>. \<open>get(timeout=1.0)\<close> on an
  empty queue raises \<open>queue.Empty\<close> and the loop goes on.
\<close>

datatype loop_ctl = Continue | Break

definition writer_iteration ::
  "io_faults \<Rightarrow> plugin \<times> writer \<Rightarrow> loop_ctl \<times> plugin \<times> writer" where
  "writer_iteration faults st =
     (let self = fst st; w = snd st in
      if shutdown_writer self then (Break, self, w)
      else case write_queue self of
        [] \<Rightarrow> (Continue, self, w)
      | None # q \<Rightarrow> (Break, self\<lparr>write_queue := q\<rparr>, w)
      | Some item # q \<Rightarrow>
        if fst item = [] \<or> snd item = [] then (Continue, self\<lparr>write_queue := q\<rparr>, w)
        else (Continue, self\<lparr>write_queue := q\<rparr>, writer_item faults w item))"

text \<open>
  The loop, one element of the list for each pass; after the loop every file object
  left in \<open>open_files\<close> is closed, in the order of the dictionary, which is the order
  in which the objects were opened. The first component says whether the thread has
  left the loop.
\<close>

fun async_writer :: "io_faults list \<Rightarrow> plugin \<times> writer \<Rightarrow> bool \<times> plugin \<times> writer" where
  "async_writer [] st = (False, st)"
| "async_writer (faults # rest) st =
     (case writer_iteration faults st of
        (Break, self, w) \<Rightarrow>
          (True, self, w\<lparr>io_log := io_log w @ map Close (sorted_list_of_set (ran (open_files w)))\<rparr>)
      | (Continue, st1) \<Rightarrow> async_writer rest st1)"

section \<open>The sanitizer thread\<close>

text \<open>
  The external sanitizer is a process outside the program. What it does is reduced to
  how the two calls end: \<open>Popen\<close> raises, \<open>communicate(timeout=30)\<close> raises
  \<open>TimeoutExpired\<close>, or the process exits with a return code, which the program never
  reads. The calls made are logged with their end.
\<close>

datatype proc_result = Spawn_error | Timeout_expired | Exited int

definition popen_communicate :: "proc_result \<Rightarrow> unit outcome" where
  "popen_communicate r = (case r of Spawn_error \<Rightarrow> Raises | Timeout_expired \<Rightarrow> Raises | Exited rc \<Rightarrow> Returns ())"

definition sanitizer_iteration ::
  "(ustr \<Rightarrow> ustr \<Rightarrow> proc_result) \<Rightarrow> plugin \<times> (ustr \<times> ustr \<times> proc_result) list \<Rightarrow>
     loop_ctl \<times> plugin \<times> (ustr \<times> ustr \<times> proc_result) list" where
  "sanitizer_iteration run st =
     (let self = fst st; calls = snd st in
      if shutdown_writer self then (Break, self, calls)
      else case sanitize_queue self of
        [] \<Rightarrow> (Continue, self, calls)
      | None # q \<Rightarrow> (Break, self\<lparr>sanitize_queue := q\<rparr>, calls)
      | Some item # q \<Rightarrow>
        (let content = fst item; output_filepath = snd item in
         if content = [] \<or> output_filepath = [] then (Continue, self\<lparr>sanitize_queue := q\<rparr>, calls)
         else
           (let calls1 = calls @ [(content, output_filepath, run content output_filepath)] in
            case popen_communicate (run content output_filepath) of
              Raises \<Rightarrow> (Continue, self\<lparr>sanitize_queue := q\<rparr>, calls1)
            | Returns _ \<Rightarrow> (Continue, self\<lparr>sanitize_queue := q\<rparr>, calls1))))"

text \<open>The loop, for a given number of passes; it stops at the first \<open>Break\<close>.\<close>

fun async_sanitizer ::
  "(ustr \<Rightarrow> ustr \<Rightarrow> proc_result) \<Rightarrow> nat \<Rightarrow> plugin \<times> (ustr \<times> ustr \<times> proc_result) list \<Rightarrow>
     bool \<times> plugin \<times> (ustr \<times> ustr \<times> proc_result) list" where
  "async_sanitizer run 0 st = (False, st)"
| "async_sanitizer run (Suc n) st =
     (case sanitizer_iteration run st of
        (Break, st1) \<Rightarrow> (True, st1)
      | (Continue, st1) \<Rightarrow> async_sanitizer run n st1)"

section \<open>Terminal identifiers\<close>

text \<open>The text of an integer in an f-string.\<close>

fun str_of_nat :: "nat \<Rightarrow> ustr" where
  "str_of_nat n = (if n < 10 then [48 + n] else str_of_nat (n div 10) @ [48 + n mod 10])"

declare str_of_nat.simps [simp del]

definition str_of_int :: "int \<Rightarrow> ustr" where
  "str_of_int i = (if i < 0 then 0x2D # str_of_nat (nat (- i)) else str_of_nat (nat i))"

text \<open>
  \<open>_global_pty_to_terminal_id\<close> and \<open>_global_session_timestamp\<close> belong to the class and
  are shared by all plugin instances; \<open>terminal_ids\<close> and \<open>terminal_counter\<close> belong to
  one instance. Instances are numbered, and the state of an instance is found under its
  number.
\<close>

record registry =
  global_pty_to_terminal_id :: "ustr \<rightharpoonup> ustr"
  global_session_timestamp :: ustr
  terminal_ids :: "nat \<times> nat \<rightharpoonup> ustr"
  terminal_counter :: "nat \<Rightarrow> int"

text \<open>
  What the host answers about the PTY of a terminal: some call of the \<open>try\<close> block
  raises (no PTY, no C library, a name that is not UTF-8), or \<open>get_fd\<close> returns a file
  descriptor and \<open>ptsname\<close> a name, \<open>None\<close> for the null pointer.
\<close>

datatype pty_query = Query_raises | Pty int "ustr option"

definition init_registry :: "ustr \<Rightarrow> registry" where
  "init_registry timestamp =
     \<lparr> global_pty_to_terminal_id = Map.empty, global_session_timestamp = timestamp,
       terminal_ids = Map.empty, terminal_counter = (\<lambda>_. 0) \<rparr>"

text \<open>The identifier of a PTY path that is new to the class-level dictionary.\<close>

definition new_terminal_id :: "int \<Rightarrow> ustr \<Rightarrow> ustr \<Rightarrow> ustr" where
  "new_terminal_id pty_fd pts_name timestamp =
     (if str_contains pts_name (of_ascii ''/dev/pts/'')
      then (let pts_num = last (str_split pts_name (of_ascii ''/dev/pts/''))
            in of_ascii ''terminal_'' @ str_of_int pty_fd @ of_ascii ''_pts'' @ pts_num @
               of_ascii ''_'' @ timestamp)
      else of_ascii ''terminal_'' @ str_of_int pty_fd @ of_ascii ''_'' @ timestamp)"

text \<open>
  \<open>_get_terminal_id\<close>, for the instance \<open>inst\<close> and the terminal whose VTE object is
  \<open>vte_terminal\<close>; \<open>answer\<close> is what the host answers about the PTY of the terminal
  during this call. The result is the identifier and the registry after the call.
\<close>

definition get_terminal_id ::
  "registry \<Rightarrow> nat \<Rightarrow> nat \<Rightarrow> pty_query \<Rightarrow> ustr \<times> registry" where
  "get_terminal_id r inst vte_terminal answer =
     (case terminal_ids r (inst, vte_terminal) of
        Some tid \<Rightarrow> (tid, r)
      | None \<Rightarrow>
        (let res =
           (case answer of
              Query_raises \<Rightarrow>
                (let n = terminal_counter r inst + 1 in
                 (of_ascii ''terminal_'' @ str_of_int n @ of_ascii ''_'' @ global_session_timestamp r,
                  r\<lparr>terminal_counter := (terminal_counter r)(inst := n)\<rparr>))
            | Pty pty_fd name \<Rightarrow>
                (case name of
                   None \<Rightarrow>
                     (of_ascii ''terminal_'' @ str_of_int pty_fd @ of_ascii ''_'' @
                        global_session_timestamp r, r)
                 | Some pts_name \<Rightarrow>
                     if pts_name = [] then
                       (of_ascii ''terminal_'' @ str_of_int pty_fd @ of_ascii ''_'' @
                          global_session_timestamp r, r)
                     else
                       (case global_pty_to_terminal_id r pts_name of
                          Some tid \<Rightarrow> (tid, r)
                        | None \<Rightarrow>
                            (let tid = new_terminal_id pty_fd pts_name (global_session_timestamp r) in
                             (tid, r\<lparr>global_pty_to_terminal_id :=
                                      (global_pty_to_terminal_id r)(pts_name \<mapsto> tid)\<rparr>)))))
         in (fst res, (snd res)\<lparr>terminal_ids := (terminal_ids (snd res))((inst, vte_terminal) \<mapsto> fst res)\<rparr>)))"

section \<open>Example states\<close>

text \<open>
  A session whose last logged row is 3, a plugin that logs this one terminal, and what
  the terminal shows when the cursor stands on a fresh prompt in row \<open>row\<close>: the line
  of the cursor is the prompt, and a range of several rows is \<open>region\<close>.
\<close>

definition demo_logger :: logger_info where
  "demo_logger =
     \<lparr> filepath = of_ascii ''/tmp/terminator_logs/terminal_20_pts3_20240101_120000_original.log'',
       sanitized_filepath = of_ascii ''/tmp/terminator_logs/terminal_20_pts3_20240101_120000.log'',
       terminal_id = of_ascii ''terminal_20_pts3_20240101_120000'',
       last_col = 0, last_row = 3, contents_handler = 1 \<rparr>"

definition demo_plugin :: plugin where
  "demo_plugin =
     \<lparr> loggers = [0 \<mapsto> demo_logger], write_queue = [], sanitize_queue = [],
       shutdown_writer = False \<rparr>"

definition demo_view :: "int \<Rightarrow> ustr \<Rightarrow> vte_view" where
  "demo_view row region =
     \<lparr> get_cursor_position = Returns (Some (2, row)),
       get_column_count = Returns 80,
       get_text_range = (\<lambda>row_start col_start row_end col_end.
          Returns (if row_start = row_end then lit_corner @ of_ascii '' '' else region)) \<rparr>"

definition demo_region :: ustr where
  "demo_region =
     lit_corner @ of_ascii '' ls'' @ [0x0A] @ of_ascii ''a.txt'' @ [0x0A] @ lit_corner @ of_ascii '' ''"

text \<open>A queue that holds 1000 chunks.\<close>

definition demo_full_queue :: "work_item list" where
  "demo_full_queue = replicate 1000 (Some (filepath demo_logger, demo_region))"

text \<open>A sanitizer that exits with code 1 on one chunk and with code 0 on every other.\<close>

definition demo_sanitizer :: "ustr \<Rightarrow> ustr \<Rightarrow> proc_result" where
  "demo_sanitizer content output_filepath =
     (if content = of_ascii ''secret'' then Exited 1 else Exited 0)"

text \<open>
  A writer thread that holds open file objects for the raw log of the example session
  and for one more file; a pass in which \<open>write\<close> raises before anything reached the
  file; and a pass without failures.
\<close>

definition demo_writer :: writer where
  "demo_writer =
     \<lparr> open_files = [filepath demo_logger \<mapsto> 0, of_ascii ''/tmp/terminator_logs/other.log'' \<mapsto> 1],
       next_handle = 2, files = (\<lambda>_. []), io_log = [] \<rparr>"

definition demo_write_error :: io_faults where
  "demo_write_error =
     \<lparr> makedirs_fails = False, open_fails = False, write_fails = True, flush_fails = False,
       written = 0 \<rparr>"

definition demo_no_faults :: io_faults where
  "demo_no_faults =
     \<lparr> makedirs_fails = False, open_fails = False, write_fails = False, flush_fails = False,
       written = 0 \<rparr>"

text \<open>The timestamp of a process started on 1 January 2024 at noon.\<close>

definition demo_timestamp :: ustr where
  "demo_timestamp = of_ascii ''20240101_120000''"

section \<open>Facts about the string operations\<close>

lemmas str_defs =
  of_ascii_def isspace_cp_def str_lstrip_def str_rstrip_def str_strip_def
  str_startswith_def str_endswith_def str_contains_def str_split1_def str_rsplit1_def

lemmas lit_defs = lit_corner_def lit_top_def lit_skull_def lit_error_glyphs_def

lemma rstrip_decomp: "\<exists>ws. s = str_rstrip s @ ws \<and> list_all isspace_cp ws"
proof -
  have "rev s = takeWhile isspace_cp (rev s) @ dropWhile isspace_cp (rev s)" by simp
  then have "s = rev (dropWhile isspace_cp (rev s)) @ rev (takeWhile isspace_cp (rev s))"
    by (metis rev_append rev_rev_ident)
  moreover have "list_all isspace_cp (rev (takeWhile isspace_cp (rev s)))"
    by (simp add: list_all_iff) (meson set_takeWhileD)
  ultimately show ?thesis unfolding str_rstrip_def by blast
qed

lemma rstrip_last: "str_rstrip s \<noteq> [] \<Longrightarrow> \<not> isspace_cp (last (str_rstrip s))"
  unfolding str_rstrip_def by (simp add: last_rev hd_dropWhile)

lemma rstrip_fixed: "s = [] \<or> \<not> isspace_cp (last s) \<Longrightarrow> str_rstrip s = s"
  unfolding str_rstrip_def by (cases "rev s") (auto simp: last_rev dest: arg_cong[where f=rev])

lemma lstrip_fixed: "s = [] \<or> \<not> isspace_cp (hd s) \<Longrightarrow> str_lstrip s = s"
  unfolding str_lstrip_def by (cases s) auto

lemma lstrip_hd: "str_lstrip s \<noteq> [] \<Longrightarrow> \<not> isspace_cp (hd (str_lstrip s))"
  unfolding str_lstrip_def by (simp add: hd_dropWhile)

lemma strip_last: "str_strip s \<noteq> [] \<Longrightarrow> \<not> isspace_cp (last (str_strip s))"
  unfolding str_strip_def by (rule rstrip_last)

lemma strip_hd: "str_strip s \<noteq> [] \<Longrightarrow> \<not> isspace_cp (hd (str_strip s))"
proof -
  assume ne: "str_strip s \<noteq> []"
  obtain ws where ws: "str_lstrip s = str_strip s @ ws"
    using rstrip_decomp[of "str_lstrip s"] unfolding str_strip_def by blast
  with ne have "str_lstrip s \<noteq> []" "hd (str_lstrip s) = hd (str_strip s)" by auto
  then show ?thesis using lstrip_hd by metis
qed

lemma strip_fixed: "s = [] \<or> (\<not> isspace_cp (hd s) \<and> \<not> isspace_cp (last s)) \<Longrightarrow> str_strip s = s"
  unfolding str_strip_def using lstrip_fixed rstrip_fixed by metis

lemma strip_idem: "str_strip (str_strip s) = str_strip s"
  using strip_fixed[of "str_strip s"] strip_hd strip_last by blast

lemma endswith_last: "str_endswith s (p @ [c]) \<Longrightarrow> s \<noteq> [] \<and> last s = c"
proof -
  assume a: "str_endswith s (p @ [c])"
  then have d: "drop (length s - length (p @ [c])) s = p @ [c]" and l: "length (p @ [c]) \<le> length s"
    unfolding str_endswith_def by auto
  from l have ne: "s \<noteq> []" by auto
  have "s = take (length s - length (p @ [c])) s @ p @ [c]"
    using d by (metis append_take_drop_id)
  then have "last s = c" by (metis append_assoc last_snoc)
  with ne show ?thesis by simp
qed

lemma strip_not_endswith_space: "isspace_cp c \<Longrightarrow> \<not> str_endswith (str_strip s) (p @ [c])"
  using endswith_last strip_last by blast

lemma of_ascii_dollar: "of_ascii ''$ '' = [36] @ [32]" by (simp add: of_ascii_def)
lemma of_ascii_hash: "of_ascii ''# '' = [35] @ [32]" by (simp add: of_ascii_def)
lemma space32: "isspace_cp 32" by (simp add: isspace_cp_def)

lemma strip_not_endswith_dollar: "\<not> str_endswith (str_strip s) (of_ascii ''$ '')"
  unfolding of_ascii_dollar using strip_not_endswith_space[OF space32] by blast

lemma strip_not_endswith_hash: "\<not> str_endswith (str_strip s) (of_ascii ''# '')"
  unfolding of_ascii_hash using strip_not_endswith_space[OF space32] by blast

lemma looks_like_prompt_iff:
  "looks_like_prompt s \<longleftrightarrow>
     s \<noteq> [] \<and> (str_startswith (str_strip s) lit_corner \<or> str_startswith (str_strip s) lit_top \<or>
       (str_contains (str_strip s) lit_top \<and> str_contains (str_strip s) lit_skull))"
  unfolding looks_like_prompt_def Let_def
  using strip_not_endswith_dollar strip_not_endswith_hash by auto

section \<open>Prompt detection\<close>

text \<open>
  C1. The claim: a line is classified as a prompt exactly when it starts with a prompt
  glyph or ends in "$ " or "# "; in particular every line that ends in "$ " or "# " is a
  prompt. The classifier strips the line before it tests \<open>endswith('$ ')\<close> and
  \<open>endswith('# ')\<close>, and a stripped line never ends in a space
  (\<open>strip_not_endswith_dollar\<close>, \<open>strip_not_endswith_hash\<close>, \<open>looks_like_prompt_iff\<close>): the
  shell prompts below, which end in "$ " and "# ", are not classified as prompts.
\<close>

theorem looks_like_prompt_misses_dollar_hash:
  "looks_like_prompt (of_ascii ''user@host:~$ '') = False \<and>
   looks_like_prompt (of_ascii ''root@host:~# '') = False"
  by (simp add: looks_like_prompt_iff str_defs lit_defs)

section \<open>Facts about stripping and the filter loop\<close>

lemma rstrip_unique:
  assumes "list_all isspace_cp b" "m = [] \<or> \<not> isspace_cp (last m)"
  shows "str_rstrip (m @ b) = m"
proof -
  have "dropWhile isspace_cp (rev b @ rev m) = dropWhile isspace_cp (rev m)"
    using assms(1) by (intro dropWhile_append2) (simp add: list_all_iff)
  moreover have "dropWhile isspace_cp (rev m) = rev m"
    using assms(2) by (cases "rev m") (auto simp: last_rev dest: arg_cong[where f=rev])
  ultimately show ?thesis by (simp add: str_rstrip_def)
qed

lemma strip_unique:
  assumes "list_all isspace_cp a" "list_all isspace_cp b" "m \<noteq> []"
    "\<not> isspace_cp (hd m)" "\<not> isspace_cp (last m)"
  shows "str_strip (a @ m @ b) = m"
proof -
  have "dropWhile isspace_cp (a @ (m @ b)) = dropWhile isspace_cp (m @ b)"
    using assms(1) by (intro dropWhile_append2) (simp add: list_all_iff)
  moreover have "dropWhile isspace_cp (m @ b) = m @ b"
    using assms(3,4) by (cases m) auto
  ultimately have "str_lstrip (a @ m @ b) = m @ b" by (simp add: str_lstrip_def)
  then show ?thesis using rstrip_unique[OF assms(2), of m] assms(5) by (simp add: str_strip_def)
qed

lemma strip_empty_all_space: "str_strip x = [] \<Longrightarrow> list_all isspace_cp x"
proof -
  assume e: "str_strip x = []"
  obtain ws where ws: "str_lstrip x = str_strip x @ ws" "list_all isspace_cp ws"
    using rstrip_decomp[of "str_lstrip x"] unfolding str_strip_def by blast
  with e have all: "list_all isspace_cp (str_lstrip x)" by simp
  have "str_lstrip x = []"
  proof (rule ccontr)
    assume "str_lstrip x \<noteq> []"
    then have "\<not> isspace_cp (hd (str_lstrip x))" by (rule lstrip_hd)
    moreover have "isspace_cp (hd (str_lstrip x))"
      using all \<open>str_lstrip x \<noteq> []\<close> by (cases "str_lstrip x") auto
    ultimately show False by simp
  qed
  then show ?thesis unfolding str_lstrip_def by (simp add: dropWhile_eq_Nil_conv list_all_iff)
qed

lemma strip_decomp:
  "\<exists>a b. x = a @ str_strip x @ b \<and> list_all isspace_cp a \<and> list_all isspace_cp b"
proof -
  obtain b where b: "str_lstrip x = str_strip x @ b" "list_all isspace_cp b"
    using rstrip_decomp[of "str_lstrip x"] unfolding str_strip_def by blast
  have "x = takeWhile isspace_cp x @ str_lstrip x" by (simp add: str_lstrip_def)
  moreover have "list_all isspace_cp (takeWhile isspace_cp x)"
    by (simp add: list_all_iff) (meson set_takeWhileD)
  ultimately show ?thesis using b by metis
qed

lemma strip_rstrip: "str_strip (str_rstrip x) = str_strip x"
proof (cases "str_strip x = []")
  case True
  then have all: "list_all isspace_cp x" by (rule strip_empty_all_space)
  then have "str_rstrip x = []" using rstrip_unique[of x "[]"] by simp
  moreover have "str_strip [] = []" by (simp add: str_strip_def str_lstrip_def str_rstrip_def)
  ultimately show ?thesis using True by simp
next
  case False
  obtain a b where ab: "x = a @ str_strip x @ b" "list_all isspace_cp a" "list_all isspace_cp b"
    using strip_decomp by blast
  have l: "\<not> isspace_cp (last (str_strip x))" and h: "\<not> isspace_cp (hd (str_strip x))"
    using False strip_last strip_hd by auto
  have "str_rstrip ((a @ str_strip x) @ b) = a @ str_strip x"
    using ab(3) l False by (intro rstrip_unique) auto
  then have "str_rstrip x = a @ str_strip x @ []" using ab(1) by simp
  moreover have "str_strip (a @ str_strip x @ []) = str_strip x"
    using ab(2) False h l by (intro strip_unique) auto
  ultimately show ?thesis by simp
qed

lemma startswith_nonempty: "str_startswith s p \<Longrightarrow> p \<noteq> [] \<Longrightarrow> s \<noteq> []"
  unfolding str_startswith_def by auto

lemma context_nonempty: "of_ascii ''context'' \<noteq> []"
  by (simp add: of_ascii_def)

lemma is_context_command_nonprompt:
  assumes "\<not> looks_like_prompt (str_strip l)"
  shows "is_context_command (str_strip l) = str_startswith (str_strip l) (of_ascii ''context'')"
proof (cases "str_strip l = []")
  case True
  then show ?thesis by (simp add: is_context_command_def str_startswith_def of_ascii_def)
next
  case False
  with assms show ?thesis by (simp add: is_context_command_def strip_idem)
qed

lemma filter_step_context:
  "is_context_command (str_strip l) \<Longrightarrow> filter_step db (sk, acc) l = (True, acc)"
  by (simp add: filter_step_def Let_def)

lemma filter_step_skipping_nonprompt:
  "\<not> looks_like_prompt (str_strip l) \<Longrightarrow> filter_step db (True, acc) l = (True, acc)"
  by (simp add: filter_step_def Let_def)

lemma filter_step_skipping_prompt:
  "looks_like_prompt (str_strip l) \<Longrightarrow> \<not> is_context_command (str_strip l) \<Longrightarrow>
   filter_step db (True, acc) l =
     (False, if is_empty_prompt db (str_strip l) then acc else acc @ [str_rstrip l])"
  by (simp add: filter_step_def Let_def)

lemma foldl_skipping_nonprompts:
  "\<forall>m\<in>set mid. \<not> looks_like_prompt (str_strip m) \<Longrightarrow>
   foldl (filter_step db) (True, acc) mid = (True, acc)"
  by (induction mid) (simp_all add: filter_step_skipping_nonprompt)

lemma filter_step_acc:
  "filter_step db (sk, acc) l =
     (fst (filter_step db (sk, []) l), acc @ snd (filter_step db (sk, []) l))"
  by (simp add: filter_step_def Let_def)

lemma foldl_filter_step_acc:
  "foldl (filter_step db) (sk, acc) ls =
     (fst (foldl (filter_step db) (sk, []) ls), acc @ snd (foldl (filter_step db) (sk, []) ls))"
proof (induction ls arbitrary: sk acc)
  case Nil
  then show ?case by simp
next
  case (Cons l ls)
  obtain sk1 a1 where s1: "filter_step db (sk, []) l = (sk1, a1)" by (cases "filter_step db (sk, []) l")
  have s2: "filter_step db (sk, acc) l = (sk1, acc @ a1)"
    using filter_step_acc[of db sk acc l] s1 by simp
  show ?case
    using Cons.IH[of sk1 "acc @ a1"] Cons.IH[of sk1 a1] s1 s2 by simp
qed

lemma filter_lines_append:
  "filter_lines db (xs @ ys) =
     filter_lines db xs @ snd (foldl (filter_step db) (fst (foldl (filter_step db) (False, []) xs), []) ys)"
proof -
  obtain sk acc where st: "foldl (filter_step db) (False, []) xs = (sk, acc)"
    by (cases "foldl (filter_step db) (False, []) xs")
  show ?thesis
    using foldl_filter_step_acc[of db sk acc ys] st by (simp add: filter_lines_def)
qed

lemmas classifier_defs =
  looks_like_prompt_def is_partial_command_def is_empty_prompt_def is_context_command_def
  filter_step_def filter_lines_def Let_def str_isdigit_def ascii_ucd_def

lemmas rx_defs = error_pattern_def rx_plus_def re_match_anchored_def rx_fullmatch_def

section \<open>Output lines that begin with the reserved word\<close>

text \<open>
  C10. A line that is not classified as a prompt and whose stripped text begins with
  "context" is classified as the start of the excluded command: the filter drops it and
  is in the skipping state afterwards, whatever its state before, and every following
  line up to the next prompt line is dropped as well. In terms of the output: the line
  and the lines after it add nothing to what the lines before it gave.
\<close>

theorem bare_context_line_starts_skipping:
  assumes "\<not> looks_like_prompt (str_strip l)"
    and "str_startswith (str_strip l) (of_ascii ''context'')"
    and "\<forall>m\<in>set following. \<not> looks_like_prompt (str_strip m)"
  shows "is_context_command (str_strip l) \<and>
         filter_step db (skip, acc) l = (True, acc) \<and>
         foldl (filter_step db) (skip, acc) (l # following) = (True, acc) \<and>
         filter_lines db (before @ l # following) = filter_lines db before"
proof -
  have c: "is_context_command (str_strip l)"
    using assms(1,2) by (simp add: is_context_command_nonprompt)
  have s: "filter_step db (sk, a) l = (True, a)" for sk a
    using c by (rule filter_step_context)
  have f: "foldl (filter_step db) (sk, a) (l # following) = (True, a)" for sk a
    using s[of sk a] foldl_skipping_nonprompts[OF assms(3)] by simp
  have "filter_lines db (before @ l # following) = filter_lines db before"
    unfolding filter_lines_append[of db before] using f by simp
  with c s f show ?thesis by simp
qed

theorem bare_context_line_starts_skipping_witness:
  "\<not> looks_like_prompt (str_strip (of_ascii ''context deadline exceeded'')) \<and>
   is_context_command (str_strip (of_ascii ''context deadline exceeded'')) \<and>
   filter_lines ascii_ucd
     [of_ascii ''a.txt'', of_ascii ''context deadline exceeded'', of_ascii ''  at dial tcp'',
      of_ascii ''retrying''] = [of_ascii ''a.txt'']"
proof -
  have h1: "\<not> looks_like_prompt (str_strip (of_ascii ''context deadline exceeded''))"
    by (simp add: looks_like_prompt_iff str_defs lit_defs)
  have h2: "str_startswith (str_strip (of_ascii ''context deadline exceeded'')) (of_ascii ''context'')"
    by (simp add: str_defs)
  have h3: "\<forall>m\<in>set [of_ascii ''  at dial tcp'', of_ascii ''retrying'']. \<not> looks_like_prompt (str_strip m)"
    by (simp add: looks_like_prompt_iff str_defs lit_defs)
  have b: "filter_lines ascii_ucd [of_ascii ''a.txt''] = [of_ascii ''a.txt'']"
    by (simp add: classifier_defs str_defs lit_defs)
  from bare_context_line_starts_skipping[OF h1 h2 h3, of ascii_ucd False "[]" "[of_ascii ''a.txt'']"] h1 b
  show ?thesis by simp
qed

section \<open>The excluded region\<close>

lemma foldl_skipping_region:
  "\<forall>m\<in>set mid. \<not> looks_like_prompt (str_strip m) \<or> is_context_command (str_strip m) \<Longrightarrow>
   foldl (filter_step db) (True, acc) mid = (True, acc)"
proof (induction mid)
  case Nil
  then show ?case by simp
next
  case (Cons m mid)
  then have "filter_step db (True, acc) m = (True, acc)"
    using filter_step_context[of m db True acc] filter_step_skipping_nonprompt[of m db acc]
    by auto
  with Cons show ?case by simp
qed

text \<open>
  C4, as the code has it. A line classified as the start of the excluded command is
  dropped, and so is every line after it up to the next prompt line that is not itself
  the start of an excluded command; that prompt line ends the skipping state and is
  kept, with its trailing whitespace removed, unless it is an empty prompt. The lines
  after it are filtered as from the initial state.
\<close>

theorem excluded_region_ends_at_next_command_prompt:
  assumes "is_context_command (str_strip c)"
    and "\<forall>m\<in>set mid. \<not> looks_like_prompt (str_strip m) \<or> is_context_command (str_strip m)"
    and "looks_like_prompt (str_strip p)"
    and "\<not> is_context_command (str_strip p)"
  shows "filter_step db (skip, acc) c = (True, acc) \<and>
         foldl (filter_step db) (skip, acc) (c # mid) = (True, acc) \<and>
         foldl (filter_step db) (skip, acc) (c # mid @ [p]) =
           (False, if is_empty_prompt db (str_strip p) then acc else acc @ [str_rstrip p]) \<and>
         filter_lines db (before @ c # mid @ p # rest) =
           filter_lines db before @
           (if is_empty_prompt db (str_strip p) then [] else [str_rstrip p]) @
           filter_lines db rest"
proof -
  have s: "filter_step db (sk, a) c = (True, a)" for sk a
    using assms(1) by (rule filter_step_context)
  have m: "foldl (filter_step db) (sk, a) (c # mid) = (True, a)" for sk a
    using s[of sk a] foldl_skipping_region[OF assms(2)] by simp
  have e: "foldl (filter_step db) (sk, a) (c # mid @ [p]) =
             (False, if is_empty_prompt db (str_strip p) then a else a @ [str_rstrip p])" for sk a
  proof -
    have "foldl (filter_step db) (sk, a) (c # mid @ [p]) =
            filter_step db (foldl (filter_step db) (sk, a) (c # mid)) p"
      by simp
    then show ?thesis
      using m[of sk a] filter_step_skipping_prompt[OF assms(3,4)] by simp
  qed
  have r: "foldl (filter_step db) (sk, []) (c # mid @ p # rest) =
             foldl (filter_step db) (False, if is_empty_prompt db (str_strip p) then [] else [str_rstrip p]) rest"
    for sk
  proof -
    have "foldl (filter_step db) (sk, []) (c # mid @ p # rest) =
            foldl (filter_step db) (foldl (filter_step db) (sk, []) (c # mid @ [p])) rest"
      by simp
    then show ?thesis using e[of sk "[]"] by simp
  qed
  have "filter_lines db (before @ c # mid @ p # rest) =
          filter_lines db before @
          (if is_empty_prompt db (str_strip p) then [] else [str_rstrip p]) @ filter_lines db rest"
    unfolding filter_lines_append[of db before] r
    using foldl_filter_step_acc[of db False "if is_empty_prompt db (str_strip p) then [] else [str_rstrip p]" rest]
    by (simp add: filter_lines_def)
  with s m e show ?thesis by simp
qed

theorem excluded_region_ends_at_next_command_prompt_witness:
  "is_context_command (str_strip (lit_corner @ of_ascii '' context wipe'')) \<and>
   looks_like_prompt (str_strip (lit_corner @ of_ascii '' ls'')) \<and>
   \<not> is_context_command (str_strip (lit_corner @ of_ascii '' ls'')) \<and>
   filter_lines ascii_ucd
     [of_ascii ''a.txt'', lit_corner @ of_ascii '' context wipe'', of_ascii ''wiped'',
      lit_corner @ of_ascii '' ls  '', of_ascii ''b.txt''] =
     [of_ascii ''a.txt'', lit_corner @ of_ascii '' ls'', of_ascii ''b.txt'']"
proof -
  have h1: "is_context_command (str_strip (lit_corner @ of_ascii '' context wipe''))"
    by (simp add: classifier_defs str_defs lit_defs)
  have h2: "\<forall>m\<in>set [of_ascii ''wiped'']. \<not> looks_like_prompt (str_strip m) \<or> is_context_command (str_strip m)"
    by (simp add: looks_like_prompt_iff str_defs lit_defs)
  have s: "str_strip (lit_corner @ of_ascii '' ls  '') = lit_corner @ of_ascii '' ls''"
    "str_rstrip (lit_corner @ of_ascii '' ls  '') = lit_corner @ of_ascii '' ls''"
    "str_strip (lit_corner @ of_ascii '' ls'') = lit_corner @ of_ascii '' ls''"
    by (simp_all add: str_defs lit_defs)
  have h3: "looks_like_prompt (str_strip (lit_corner @ of_ascii '' ls  ''))"
    by (simp add: looks_like_prompt_iff str_defs lit_defs)
  have h4: "\<not> is_context_command (str_strip (lit_corner @ of_ascii '' ls  ''))"
    by (simp add: classifier_defs str_defs lit_defs)
  have e: "\<not> is_empty_prompt ascii_ucd (str_strip (lit_corner @ of_ascii '' ls  ''))"
    by (simp add: is_empty_prompt_def Let_def ascii_ucd_def rx_defs str_defs lit_defs)
  have b: "filter_lines ascii_ucd [of_ascii ''a.txt''] = [of_ascii ''a.txt'']"
    "filter_lines ascii_ucd [of_ascii ''b.txt''] = [of_ascii ''b.txt'']"
    by (simp_all add: classifier_defs str_defs lit_defs)
  from excluded_region_ends_at_next_command_prompt[OF h1 h2 h3 h4,
      of ascii_ucd False "[]" "[of_ascii ''a.txt'']" "[of_ascii ''b.txt'']"]
    h1 h3 h4 e b s
  show ?thesis by simp
qed

text \<open>
  The claim as written fails where the next prompt line is itself an excluded command:
  after "context wipe" and its output, the prompt line with "context show" is a prompt
  and not an empty prompt, yet it is not in the output and the filter still skips.
\<close>

theorem next_prompt_with_context_not_included:
  "is_context_command (str_strip (lit_corner @ of_ascii '' context wipe'')) \<and>
   \<not> looks_like_prompt (str_strip (of_ascii ''wiped'')) \<and>
   looks_like_prompt (str_strip (lit_corner @ of_ascii '' context show'')) \<and>
   \<not> is_empty_prompt ascii_ucd (str_strip (lit_corner @ of_ascii '' context show'')) \<and>
   foldl (filter_step ascii_ucd) (False, [])
     [lit_corner @ of_ascii '' context wipe'', of_ascii ''wiped'',
      lit_corner @ of_ascii '' context show''] = (True, [])"
proof -
  have c1: "is_context_command (str_strip (lit_corner @ of_ascii '' context wipe''))"
    by (simp add: classifier_defs str_defs lit_defs)
  have c2: "is_context_command (str_strip (lit_corner @ of_ascii '' context show''))"
    by (simp add: classifier_defs str_defs lit_defs)
  have n: "\<not> looks_like_prompt (str_strip (of_ascii ''wiped''))"
    by (simp add: looks_like_prompt_iff str_defs lit_defs)
  have p: "looks_like_prompt (str_strip (lit_corner @ of_ascii '' context show''))"
    by (simp add: looks_like_prompt_iff str_defs lit_defs)
  have e: "\<not> is_empty_prompt ascii_ucd (str_strip (lit_corner @ of_ascii '' context show''))"
    by (simp add: is_empty_prompt_def Let_def ascii_ucd_def rx_defs str_defs lit_defs)
  have "foldl (filter_step ascii_ucd) (False, [])
     [lit_corner @ of_ascii '' context wipe'', of_ascii ''wiped'',
      lit_corner @ of_ascii '' context show''] = (True, [])"
    using filter_step_context[OF c1] filter_step_context[OF c2] filter_step_skipping_nonprompt[OF n]
    by simp
  with c1 n p e show ?thesis by simp
qed

section \<open>Partial input\<close>

lemma prompt_nonempty: "looks_like_prompt s \<Longrightarrow> s \<noteq> []"
  by (auto simp: looks_like_prompt_def)

lemma is_partial_command_nonprompt:
  assumes "\<not> looks_like_prompt (str_strip l)"
  shows "is_partial_command db (str_strip l) =
           (str_strip l = [] \<or> (length (str_strip l) \<le> 2 \<and> \<not> str_isdigit db (str_strip l)) \<or>
            str_endswith (str_strip l) (of_ascii ''_'') \<or> str_endswith (str_strip l) (of_ascii ''|''))"
  using assms by (auto simp: is_partial_command_def strip_idem Let_def)

lemma filter_step_partial:
  assumes "\<not> looks_like_prompt (str_strip l)" "is_partial_command db (str_strip l)"
  shows "snd (filter_step db (sk, acc) l) = acc"
  using assms by (simp add: filter_step_def Let_def)

text \<open>
  C6. A line that is not a prompt and whose stripped text has at most two characters
  and is not a digit string, or ends in "_" or "|", is classified as partial input and
  adds nothing to the filtered lines, whatever the state of the loop. A line classified
  as a prompt is never classified as partial input.
\<close>

theorem partial_input_dropped_prompt_never_partial:
  "(\<not> looks_like_prompt (str_strip l) \<and>
      ((length (str_strip l) \<le> 2 \<and> \<not> str_isdigit db (str_strip l)) \<or>
       str_endswith (str_strip l) (of_ascii ''_'') \<or> str_endswith (str_strip l) (of_ascii ''|''))
     \<longrightarrow> is_partial_command db (str_strip l) \<and> snd (filter_step db (skip, acc) l) = acc) \<and>
   (looks_like_prompt s \<longrightarrow> \<not> is_partial_command db s)"
proof (intro conjI impI)
  assume a: "\<not> looks_like_prompt (str_strip l) \<and>
      ((length (str_strip l) \<le> 2 \<and> \<not> str_isdigit db (str_strip l)) \<or>
       str_endswith (str_strip l) (of_ascii ''_'') \<or> str_endswith (str_strip l) (of_ascii ''|''))"
  then show p: "is_partial_command db (str_strip l)"
    using is_partial_command_nonprompt[of l db] by blast
  show "snd (filter_step db (skip, acc) l) = acc"
    using a p filter_step_partial by blast
next
  assume "looks_like_prompt s"
  then show "\<not> is_partial_command db s"
    using prompt_nonempty[of s] by (simp add: is_partial_command_def)
qed

theorem partial_input_dropped_prompt_never_partial_witness:
  "is_partial_command ascii_ucd (str_strip (of_ascii ''l'')) \<and>
   filter_lines ascii_ucd [of_ascii ''l''] = [] \<and>
   is_partial_command ascii_ucd (str_strip (of_ascii ''cat notes |'')) \<and>
   filter_lines ascii_ucd [of_ascii ''cat notes |''] = [] \<and>
   looks_like_prompt (lit_corner @ of_ascii '' '') \<and>
   \<not> is_partial_command ascii_ucd (lit_corner @ of_ascii '' '')"
proof -
  have n1: "\<not> looks_like_prompt (str_strip (of_ascii ''l''))"
    and n2: "\<not> looks_like_prompt (str_strip (of_ascii ''cat notes |''))"
    by (simp_all add: looks_like_prompt_iff str_defs lit_defs)
  have s1: "length (str_strip (of_ascii ''l'')) \<le> 2 \<and> \<not> str_isdigit ascii_ucd (str_strip (of_ascii ''l''))"
    by (simp add: str_defs str_isdigit_def ascii_ucd_def)
  have s2: "str_endswith (str_strip (of_ascii ''cat notes |'')) (of_ascii ''|'')"
    by (simp add: str_defs)
  have p: "looks_like_prompt (lit_corner @ of_ascii '' '')"
    by (simp add: looks_like_prompt_iff str_defs lit_defs)
  have f: "filter_lines ascii_ucd [x] = snd (filter_step ascii_ucd (False, []) x)" for x
    by (simp add: filter_lines_def)
  from partial_input_dropped_prompt_never_partial
         [of "of_ascii ''l''" ascii_ucd False "[]" "lit_corner @ of_ascii '' ''"]
       partial_input_dropped_prompt_never_partial
         [of "of_ascii ''cat notes |''" ascii_ucd False "[]" "lit_corner @ of_ascii '' ''"]
       n1 n2 s1 s2 p f
  show ?thesis by simp
qed

section \<open>The content-change handler\<close>

lemma enqueue_chunk_loggers: "loggers (enqueue_chunk self li c) = loggers self"
  by (simp add: enqueue_chunk_def split: option.splits)

lemma log_new_content_loggers: "loggers (log_new_content db self li view row cols) = loggers self"
  by (simp add: log_new_content_def Let_def enqueue_chunk_loggers)

lemma on_contents_changed_cases:
  "on_contents_changed db self v view = self \<or>
   (\<exists>li col row cols. loggers self v = Some li \<and> last_row li < row \<and>
      get_cursor_position view = Returns (Some (col, row)) \<and>
      get_column_count view = Returns cols \<and>
      on_contents_changed db self v view =
        (log_new_content db self li view row cols)\<lparr>loggers := (loggers self)(v \<mapsto> li\<lparr>last_row := row\<rparr>)\<rparr>)"
proof (cases "loggers self v")
  case None
  then show ?thesis by (simp add: on_contents_changed_def)
next
  case (Some li)
  show ?thesis
  proof (cases "get_cursor_position view")
    case Raises
    with Some show ?thesis by (simp add: on_contents_changed_def)
  next
    case (Returns pos)
    show ?thesis
    proof (cases pos)
      case None
      with Some Returns show ?thesis by (simp add: on_contents_changed_def)
    next
      case pos: (Some cr)
      obtain col row where cr: "cr = (col, row)" by (cases cr)
      show ?thesis
      proof (cases "get_column_count view")
        case Raises
        with Some Returns pos cr show ?thesis by (simp add: on_contents_changed_def)
      next
        case cols: (Returns cols)
        with Some Returns pos cr show ?thesis
          by (simp add: on_contents_changed_def Let_def log_new_content_loggers)
      qed
    qed
  qed
qed

lemma on_contents_changed_last_row:
  assumes "loggers self v = Some li"
  shows "\<exists>li'. loggers (on_contents_changed db self vt view) v = Some li' \<and> last_row li \<le> last_row li'"
  using on_contents_changed_cases[of db self vt view] assms
  by (cases "v = vt") auto

lemma contents_changed_seq_last_row:
  "loggers self v = Some li \<Longrightarrow>
   \<exists>li'. loggers (contents_changed_seq db self events) v = Some li' \<and> last_row li \<le> last_row li'"
proof (induction events arbitrary: self li)
  case Nil
  then show ?case by (simp add: contents_changed_seq_def)
next
  case (Cons ev events)
  obtain li1 where l1: "loggers (on_contents_changed db self (fst ev) (snd ev)) v = Some li1"
    and le1: "last_row li \<le> last_row li1"
    using on_contents_changed_last_row[OF Cons.prems] by blast
  from Cons.IH[OF l1] obtain li' where
    "loggers (contents_changed_seq db (on_contents_changed db self (fst ev) (snd ev)) events) v = Some li'"
    "last_row li1 \<le> last_row li'" by blast
  with le1 show ?case by (auto simp: contents_changed_seq_def)
qed

lemma contents_changed_seq_append:
  "contents_changed_seq db self (es1 @ es2) =
     contents_changed_seq db (contents_changed_seq db self es1) es2"
  by (simp add: contents_changed_seq_def)

lemmas handler_defs =
  on_contents_changed_def log_new_content_def enqueue_chunk_def queue_put_def maxsize_def
  get_content_def contents_changed_seq_def write_to_log_def

lemmas demo_defs = demo_view_def demo_plugin_def demo_logger_def demo_region_def

text \<open>
  C3. For a session of the plugin, the recorded \<open>last_row\<close> never decreases along a
  sequence of content-change notifications, for whatever terminals and whatever the
  host answers: after any first part of the sequence it is at least what it was, and
  after the whole sequence at least what it was after the first part. The session is
  still there after each notification.
\<close>

theorem last_row_never_decreases:
  assumes "loggers self v = Some li"
  shows "\<exists>li1 li2.
           loggers (contents_changed_seq db self es1) v = Some li1 \<and>
           loggers (contents_changed_seq db self (es1 @ es2)) v = Some li2 \<and>
           last_row li \<le> last_row li1 \<and> last_row li1 \<le> last_row li2"
proof -
  obtain li1 where l1: "loggers (contents_changed_seq db self es1) v = Some li1"
    "last_row li \<le> last_row li1"
    using contents_changed_seq_last_row[OF assms] by blast
  obtain li2 where
    "loggers (contents_changed_seq db (contents_changed_seq db self es1) es2) v = Some li2"
    "last_row li1 \<le> last_row li2"
    using contents_changed_seq_last_row[OF l1(1)] by blast
  with l1 show ?thesis by (auto simp: contents_changed_seq_append)
qed

text \<open>
  The example session has \<open>last_row = 3\<close>. The cursor reaches a prompt in row 5, then
  the host reports row 4 (nothing happens), then a prompt in row 9.
\<close>

theorem last_row_never_decreases_witness:
  "loggers demo_plugin 0 = Some demo_logger \<and> last_row demo_logger = 3 \<and>
   (\<exists>li1 li2.
      loggers (contents_changed_seq ascii_ucd demo_plugin [(0, demo_view 5 demo_region)]) 0 = Some li1 \<and>
      loggers (contents_changed_seq ascii_ucd demo_plugin
                 ([(0, demo_view 5 demo_region)] @
                  [(0, demo_view 4 demo_region), (0, demo_view 9 demo_region)])) 0 = Some li2 \<and>
      last_row li1 = 5 \<and> last_row li2 = 9 \<and>
      last_row demo_logger \<le> last_row li1 \<and> last_row li1 \<le> last_row li2)"
proof -
  have h: "loggers demo_plugin 0 = Some demo_logger"
    by (simp add: demo_plugin_def)
  have r: "last_row demo_logger = 3"
    by (simp add: demo_logger_def)
  have e1: "loggers (contents_changed_seq ascii_ucd demo_plugin [(0, demo_view 5 demo_region)]) 0 =
              Some (demo_logger\<lparr>last_row := 5\<rparr>)"
    by (simp add: handler_defs demo_defs str_split.simps classifier_defs rx_defs str_defs lit_defs)
  have e2: "loggers (contents_changed_seq ascii_ucd demo_plugin
                 ([(0, demo_view 5 demo_region)] @
                  [(0, demo_view 4 demo_region), (0, demo_view 9 demo_region)])) 0 =
              Some (demo_logger\<lparr>last_row := 9\<rparr>)"
    by (simp add: handler_defs demo_defs str_split.simps classifier_defs rx_defs str_defs lit_defs)
  from last_row_never_decreases[OF h, of ascii_ucd "[(0, demo_view 5 demo_region)]"
         "[(0, demo_view 4 demo_region), (0, demo_view 9 demo_region)]"]
  obtain li1 li2 where
    "loggers (contents_changed_seq ascii_ucd demo_plugin [(0, demo_view 5 demo_region)]) 0 = Some li1"
    "loggers (contents_changed_seq ascii_ucd demo_plugin
                 ([(0, demo_view 5 demo_region)] @
                  [(0, demo_view 4 demo_region), (0, demo_view 9 demo_region)])) 0 = Some li2"
    "last_row demo_logger \<le> last_row li1" "last_row li1 \<le> last_row li2"
    by blast
  moreover from this e1 e2 have "last_row li1 = 5" "last_row li2 = 9" by auto
  ultimately show ?thesis using h r by blast
qed

section \<open>Full queues\<close>

lemma enqueue_chunk_write_full:
  "maxsize \<le> length (write_queue self) \<Longrightarrow> enqueue_chunk self li c = self"
  by (simp add: enqueue_chunk_def queue_put_def)

lemma log_new_content_write_full:
  "maxsize \<le> length (write_queue self) \<Longrightarrow> log_new_content db self li view row cols = self"
  by (simp add: log_new_content_def Let_def enqueue_chunk_write_full)

text \<open>
  C9. Both queues hold at most 1000 items (\<open>maxsize\<close>). When the raw queue is full, the
  attempt to enqueue a chunk returns the state it was given: the chunk goes to neither
  queue, nothing is raised, and \<open>_write_to_log\<close> behaves the same. The handler as a whole
  then returns the state unchanged or changed only in the \<open>last_row\<close> of the session,
  which it stores after every attempt. When only the sanitizer queue is full, the chunk
  is appended to the raw queue, after the items already there, and the sanitizer queue
  is left as it is. The wait of 0.1 s itself is the \<open>timeout\<close> argument of \<open>put\<close>; the
  model has its two outcomes.
\<close>

theorem full_queue_drops_chunk:
  "(maxsize \<le> length (write_queue self) \<longrightarrow>
      enqueue_chunk self li content = self \<and>
      write_to_log self v text = self \<and>
      (on_contents_changed db self v view = self \<or>
       (\<exists>li' row. loggers self v = Some li' \<and> last_row li' < row \<and>
          on_contents_changed db self v view =
            self\<lparr>loggers := (loggers self)(v \<mapsto> li'\<lparr>last_row := row\<rparr>)\<rparr>))) \<and>
   (length (write_queue self) < maxsize \<and> maxsize \<le> length (sanitize_queue self) \<longrightarrow>
      enqueue_chunk self li content =
        self\<lparr>write_queue := write_queue self @ [Some (filepath li, content)]\<rparr>)"
proof (intro conjI impI)
  assume full: "maxsize \<le> length (write_queue self)"
  show "enqueue_chunk self li content = self"
    using full by (rule enqueue_chunk_write_full)
  show "write_to_log self v text = self"
    using full by (simp add: write_to_log_def queue_put_def Let_def split: option.splits)
  show "on_contents_changed db self v view = self \<or>
       (\<exists>li' row. loggers self v = Some li' \<and> last_row li' < row \<and>
          on_contents_changed db self v view =
            self\<lparr>loggers := (loggers self)(v \<mapsto> li'\<lparr>last_row := row\<rparr>)\<rparr>)"
    using on_contents_changed_cases[of db self v view] log_new_content_write_full[OF full]
    by auto
next
  assume "length (write_queue self) < maxsize \<and> maxsize \<le> length (sanitize_queue self)"
  then show "enqueue_chunk self li content =
        self\<lparr>write_queue := write_queue self @ [Some (filepath li, content)]\<rparr>"
    by (simp add: enqueue_chunk_def queue_put_def)
qed

text \<open>
  The example plugin with a raw queue of 1000 items, and with a sanitizer queue of 1000
  items: the chunk of the example region is dropped, or goes to the raw queue only.
\<close>

theorem full_queue_drops_chunk_witness:
  "enqueue_chunk (demo_plugin\<lparr>write_queue := demo_full_queue\<rparr>) demo_logger demo_region =
     demo_plugin\<lparr>write_queue := demo_full_queue\<rparr> \<and>
   write_to_log (demo_plugin\<lparr>write_queue := demo_full_queue\<rparr>) 0 demo_region =
     demo_plugin\<lparr>write_queue := demo_full_queue\<rparr> \<and>
   on_contents_changed ascii_ucd (demo_plugin\<lparr>write_queue := demo_full_queue\<rparr>) 0
       (demo_view 5 demo_region) =
     demo_plugin\<lparr>write_queue := demo_full_queue, loggers := [0 \<mapsto> demo_logger\<lparr>last_row := 5\<rparr>]\<rparr> \<and>
   enqueue_chunk (demo_plugin\<lparr>sanitize_queue := demo_full_queue\<rparr>) demo_logger demo_region =
     demo_plugin\<lparr>sanitize_queue := demo_full_queue,
                  write_queue := [Some (filepath demo_logger, demo_region)]\<rparr>"
proof -
  have f1: "maxsize \<le> length (write_queue (demo_plugin\<lparr>write_queue := demo_full_queue\<rparr>))"
    by (simp add: maxsize_def demo_full_queue_def)
  have f2: "length (write_queue (demo_plugin\<lparr>sanitize_queue := demo_full_queue\<rparr>)) < maxsize \<and>
            maxsize \<le> length (sanitize_queue (demo_plugin\<lparr>sanitize_queue := demo_full_queue\<rparr>))"
    by (simp add: maxsize_def demo_plugin_def demo_full_queue_def)
  note t1 = full_queue_drops_chunk[of "demo_plugin\<lparr>write_queue := demo_full_queue\<rparr>"
              demo_logger demo_region 0 demo_region ascii_ucd "demo_view 5 demo_region"]
  note t2 = full_queue_drops_chunk[of "demo_plugin\<lparr>sanitize_queue := demo_full_queue\<rparr>"
              demo_logger demo_region 0 demo_region ascii_ucd "demo_view 5 demo_region"]
  have a: "enqueue_chunk (demo_plugin\<lparr>write_queue := demo_full_queue\<rparr>) demo_logger demo_region =
     demo_plugin\<lparr>write_queue := demo_full_queue\<rparr>"
    and b: "write_to_log (demo_plugin\<lparr>write_queue := demo_full_queue\<rparr>) 0 demo_region =
     demo_plugin\<lparr>write_queue := demo_full_queue\<rparr>"
    using t1 f1 by blast+
  have c: "on_contents_changed ascii_ucd (demo_plugin\<lparr>write_queue := demo_full_queue\<rparr>) 0
       (demo_view 5 demo_region) =
     demo_plugin\<lparr>write_queue := demo_full_queue, loggers := [0 \<mapsto> demo_logger\<lparr>last_row := 5\<rparr>]\<rparr>"
    unfolding on_contents_changed_def log_new_content_write_full[OF f1]
    by (simp add: get_content_def demo_view_def demo_plugin_def demo_logger_def
          looks_like_prompt_iff str_defs lit_defs)
  have d: "enqueue_chunk (demo_plugin\<lparr>sanitize_queue := demo_full_queue\<rparr>) demo_logger demo_region =
     demo_plugin\<lparr>sanitize_queue := demo_full_queue,
                  write_queue := [Some (filepath demo_logger, demo_region)]\<rparr>"
    using t2 f2 by (simp add: demo_plugin_def)
  from a b c d show ?thesis by simp
qed

section \<open>The sanitizer thread: a failing item\<close>

text \<open>
  C7. When the sanitizer fails on the item at the head of the queue (it cannot be
  started, it runs into the timeout, or it exits with a code other than 0), the pass of
  the loop takes exactly this item from the queue, has called the sanitizer once for
  it, and goes on; nothing else of the plugin changes, the raw queue in particular. The
  next item, when there is one, is handled in the next pass: after two passes both
  items are gone, each with one call, the second call being what it would be without
  the failure. The writer thread's files and file objects are no part of the state the
  sanitizer thread works on.
\<close>

theorem sanitizer_failure_discards_that_item_only:
  assumes "\<not> shutdown_writer self"
    and "sanitize_queue self = Some (content, out) # q"
    and "content \<noteq> []" and "out \<noteq> []"
    and "run content out = Spawn_error \<or> run content out = Timeout_expired \<or>
         (\<exists>rc. rc \<noteq> 0 \<and> run content out = Exited rc)"
  shows "sanitizer_iteration run (self, calls) =
           (Continue, self\<lparr>sanitize_queue := q\<rparr>, calls @ [(content, out, run content out)]) \<and>
         write_queue (fst (snd (sanitizer_iteration run (self, calls)))) = write_queue self \<and>
         loggers (fst (snd (sanitizer_iteration run (self, calls)))) = loggers self \<and>
         (\<forall>c2 o2 q2. q = Some (c2, o2) # q2 \<and> c2 \<noteq> [] \<and> o2 \<noteq> [] \<longrightarrow>
            async_sanitizer run 2 (self, calls) =
              (False, self\<lparr>sanitize_queue := q2\<rparr>,
               calls @ [(content, out, run content out), (c2, o2, run c2 o2)]))"
proof -
  have one: "sanitizer_iteration run (self, calls) =
           (Continue, self\<lparr>sanitize_queue := q\<rparr>, calls @ [(content, out, run content out)])"
    using assms(1-4)
    by (simp add: sanitizer_iteration_def Let_def popen_communicate_def
          split: proc_result.splits outcome.splits)
  have two: "async_sanitizer run 2 (self, calls) =
              (False, self\<lparr>sanitize_queue := q2\<rparr>,
               calls @ [(content, out, run content out), (c2, o2, run c2 o2)])"
    if "q = Some (c2, o2) # q2" "c2 \<noteq> []" "o2 \<noteq> []" for c2 o2 q2
  proof -
    have "sanitizer_iteration run (self\<lparr>sanitize_queue := q\<rparr>, calls @ [(content, out, run content out)]) =
            (Continue, self\<lparr>sanitize_queue := q2\<rparr>,
             calls @ [(content, out, run content out), (c2, o2, run c2 o2)])"
      using assms(1) that
      by (simp add: sanitizer_iteration_def Let_def popen_communicate_def
            split: proc_result.splits outcome.splits)
    then show ?thesis
      using one by (simp add: numeral_2_eq_2)
  qed
  from one two show ?thesis by simp
qed

theorem sanitizer_failure_discards_that_item_only_witness:
  "async_sanitizer demo_sanitizer 2
     (demo_plugin\<lparr>sanitize_queue :=
        [Some (of_ascii ''secret'', sanitized_filepath demo_logger),
         Some (of_ascii ''ls'', sanitized_filepath demo_logger)]\<rparr>, []) =
   (False, demo_plugin\<lparr>sanitize_queue := []\<rparr>,
    [(of_ascii ''secret'', sanitized_filepath demo_logger, Exited 1),
     (of_ascii ''ls'', sanitized_filepath demo_logger, Exited 0)])"
proof -
  let ?self = "demo_plugin\<lparr>sanitize_queue :=
        [Some (of_ascii ''secret'', sanitized_filepath demo_logger),
         Some (of_ascii ''ls'', sanitized_filepath demo_logger)]\<rparr>"
  have h1: "\<not> shutdown_writer ?self" by (simp add: demo_plugin_def)
  have h2: "sanitize_queue ?self =
      Some (of_ascii ''secret'', sanitized_filepath demo_logger) #
      [Some (of_ascii ''ls'', sanitized_filepath demo_logger)]" by simp
  have h3: "of_ascii ''secret'' \<noteq> []" "of_ascii ''ls'' \<noteq> []" "of_ascii ''ls'' \<noteq> of_ascii ''secret''"
    by (simp_all add: of_ascii_def)
  have h4: "sanitized_filepath demo_logger \<noteq> []" by (simp add: demo_logger_def of_ascii_def)
  have h5: "demo_sanitizer (of_ascii ''secret'') (sanitized_filepath demo_logger) = Spawn_error \<or>
            demo_sanitizer (of_ascii ''secret'') (sanitized_filepath demo_logger) = Timeout_expired \<or>
            (\<exists>rc. rc \<noteq> 0 \<and> demo_sanitizer (of_ascii ''secret'') (sanitized_filepath demo_logger) = Exited rc)"
    by (simp add: demo_sanitizer_def)
  have r: "demo_sanitizer (of_ascii ''secret'') (sanitized_filepath demo_logger) = Exited 1"
    "demo_sanitizer (of_ascii ''ls'') (sanitized_filepath demo_logger) = Exited 0"
    using h3 by (simp_all add: demo_sanitizer_def)
  from sanitizer_failure_discards_that_item_only
         [where run = demo_sanitizer and self = ?self and content = "of_ascii ''secret''"
            and out = "sanitized_filepath demo_logger" and calls = "[]"
            and q = "[Some (of_ascii ''ls'', sanitized_filepath demo_logger)]",
          OF h1 h2 h3(1) h4 h5]
       h3 h4 r
  show ?thesis by simp
qed

section \<open>The writer thread: a failing write\<close>

lemma writer_open_ready:
  assumes "open_files w path \<noteq> None \<or> (\<not> makedirs_fails faults \<and> \<not> open_fails faults)"
  shows "\<exists>w1 fd. writer_open faults w path = Inr w1 \<and> open_files w1 = (open_files w)(path \<mapsto> fd) \<and>
           (open_files w path = Some fd \<or> (open_files w path = None \<and> fd = next_handle w)) \<and>
           files w1 = files w"
  using assms by (cases "open_files w path") (auto simp: writer_open_def Let_def)

lemma writer_write_fails:
  assumes "open_files w1 path = Some fd" "write_fails faults \<or> flush_fails faults"
  shows "\<exists>w2. writer_write faults w1 path content = Inl w2 \<and> open_files w2 = open_files w1 \<and>
           files w2 = (files w1)(path := files w1 path @ take (written faults) content)"
  using assms by (auto simp: writer_write_def Let_def)

lemma writer_except_closes:
  assumes "open_files w2 path = Some fd"
  shows "open_files (writer_except w2 path) = (open_files w2)(path := None) \<and>
         io_log (writer_except w2 path) = io_log w2 @ [Close fd] \<and>
         files (writer_except w2 path) = files w2"
  using assms by (simp add: writer_except_def)

lemma writer_item_write_error:
  assumes "open_files w path \<noteq> None \<or> (\<not> makedirs_fails faults \<and> \<not> open_fails faults)"
    and "write_fails faults \<or> flush_fails faults"
  shows "open_files (writer_item faults w (path, content)) = (open_files w)(path := None) \<and>
         (\<exists>fd. last (io_log (writer_item faults w (path, content))) = Close fd \<and>
               (open_files w path = Some fd \<or> (open_files w path = None \<and> fd = next_handle w))) \<and>
         (\<forall>p. p \<noteq> path \<longrightarrow> files (writer_item faults w (path, content)) p = files w p)"
proof -
  obtain w1 fd where w1: "writer_open faults w path = Inr w1"
    "open_files w1 = (open_files w)(path \<mapsto> fd)"
    "open_files w path = Some fd \<or> (open_files w path = None \<and> fd = next_handle w)"
    "files w1 = files w"
    using writer_open_ready[OF assms(1)] by blast
  then have o1: "open_files w1 path = Some fd" by simp
  obtain w2 where w2: "writer_write faults w1 path content = Inl w2" "open_files w2 = open_files w1"
    "files w2 = (files w1)(path := files w1 path @ take (written faults) content)"
    using writer_write_fails[OF o1 assms(2)] by blast
  have o2: "open_files w2 path = Some fd" using w2(2) o1 by simp
  have r: "writer_item faults w (path, content) = writer_except w2 path"
    using w1(1) w2(1) by (simp add: writer_item_def)
  show ?thesis
    unfolding r using writer_except_closes[OF o2] w1(2,3,4) w2(2,3) by auto
qed

lemma writer_item_other_path:
  "fst item \<noteq> path \<Longrightarrow> open_files (writer_item faults w item) path = open_files w path"
  by (auto simp: writer_item_def writer_open_def writer_write_def writer_except_def Let_def
      split: option.splits sum.splits if_splits)

lemma writer_items_other_paths:
  "\<forall>x\<in>set others. fst (snd x) \<noteq> path \<Longrightarrow>
   open_files (foldl (\<lambda>w x. writer_item (fst x) w (snd x)) w others) path = open_files w path"
  by (induction others arbitrary: w) (simp_all add: writer_item_other_path)

lemma writer_item_reopens:
  assumes "open_files w path = None"
    and "\<not> makedirs_fails ok \<and> \<not> open_fails ok \<and> \<not> write_fails ok \<and> \<not> flush_fails ok"
  shows "io_log (writer_item ok w (path, content)) =
           io_log w @ [Makedirs (dirname path), Open_append path,
                       Write (next_handle w) content, Flush (next_handle w)] \<and>
         open_files (writer_item ok w (path, content)) = (open_files w)(path \<mapsto> next_handle w) \<and>
         files (writer_item ok w (path, content)) = (files w)(path := files w path @ content)"
  using assms by (simp add: writer_item_def writer_open_def writer_write_def Let_def)


text \<open>
  C8. When the write of an item raises (in \<open>write\<close> or in \<open>flush\<close>, on a file object that
  was cached or has just been opened), the pass of the loop ends with the loop going
  on and the item taken from the queue; the file object of the item's path has been
  closed, as the last call of the pass, and its entry is deleted; the entries of all
  other paths are as before. Items for other paths that follow do not bring the entry
  back, and the next item for the same path, handled without failure, creates the
  directory, opens the file for appending under a new file object, writes and flushes
  its content, which is appended to the file.
\<close>

theorem write_error_discards_only_that_handle:
  assumes "\<not> shutdown_writer self"
    and "write_queue self = Some (path, content) # q"
    and "path \<noteq> []" and "content \<noteq> []"
    and "open_files w path \<noteq> None \<or> (\<not> makedirs_fails faults \<and> \<not> open_fails faults)"
    and "write_fails faults \<or> flush_fails faults"
    and "\<forall>x\<in>set others. fst (snd x) \<noteq> path"
    and "\<not> makedirs_fails ok \<and> \<not> open_fails ok \<and> \<not> write_fails ok \<and> \<not> flush_fails ok"
  shows "\<exists>w1 w2 w3.
           writer_iteration faults (self, w) = (Continue, self\<lparr>write_queue := q\<rparr>, w1) \<and>
           open_files w1 = (open_files w)(path := None) \<and>
           (\<exists>fd. last (io_log w1) = Close fd \<and>
                 (open_files w path = Some fd \<or> (open_files w path = None \<and> fd = next_handle w))) \<and>
           w2 = foldl (\<lambda>w x. writer_item (fst x) w (snd x)) w1 others \<and>
           open_files w2 path = None \<and>
           w3 = writer_item ok w2 (path, later) \<and>
           io_log w3 = io_log w2 @ [Makedirs (dirname path), Open_append path,
                                    Write (next_handle w2) later, Flush (next_handle w2)] \<and>
           open_files w3 = (open_files w2)(path \<mapsto> next_handle w2) \<and>
           files w3 path = files w2 path @ later"
proof -
  let ?w1 = "writer_item faults w (path, content)"
  let ?w2 = "foldl (\<lambda>w x. writer_item (fst x) w (snd x)) ?w1 others"
  have it: "writer_iteration faults (self, w) = (Continue, self\<lparr>write_queue := q\<rparr>, ?w1)"
    using assms(1-4) by (simp add: writer_iteration_def Let_def)
  note e = writer_item_write_error[OF assms(5,6), of content]
  have n1: "open_files ?w1 path = None" using e by simp
  have n2: "open_files ?w2 path = None"
    using writer_items_other_paths[OF assms(7), of ?w1] n1 by simp
  note r = writer_item_reopens[OF n2 assms(8), of later]
  from it e n2 r show ?thesis by auto
qed

text \<open>
  The example writer fails to write "ls" to the raw log of the example session, then
  writes to the other file, then writes "pwd" to the raw log.
\<close>

theorem write_error_discards_only_that_handle_witness:
  "\<exists>w1 w2 w3.
     writer_iteration demo_write_error
       (demo_plugin\<lparr>write_queue := [Some (filepath demo_logger, of_ascii ''ls'')]\<rparr>, demo_writer) =
       (Continue, demo_plugin\<lparr>write_queue := []\<rparr>, w1) \<and>
     open_files w1 (filepath demo_logger) = None \<and>
     open_files w1 (of_ascii ''/tmp/terminator_logs/other.log'') = Some 1 \<and>
     io_log w1 = [Write 0 (of_ascii ''ls''), Close 0] \<and>
     w2 = foldl (\<lambda>w x. writer_item (fst x) w (snd x)) w1
            [(demo_no_faults, (of_ascii ''/tmp/terminator_logs/other.log'', of_ascii ''id''))] \<and>
     open_files w2 (filepath demo_logger) = None \<and>
     w3 = writer_item demo_no_faults w2 (filepath demo_logger, of_ascii ''pwd'') \<and>
     io_log w3 = io_log w2 @ [Makedirs (of_ascii ''/tmp/terminator_logs''),
                              Open_append (filepath demo_logger),
                              Write 2 (of_ascii ''pwd''), Flush 2] \<and>
     open_files w3 (filepath demo_logger) = Some 2 \<and>
     files w3 (filepath demo_logger) = of_ascii ''pwd''"
proof -
  let ?self = "demo_plugin\<lparr>write_queue := [Some (filepath demo_logger, of_ascii ''ls'')]\<rparr>"
  let ?other = "of_ascii ''/tmp/terminator_logs/other.log''"
  let ?others = "[(demo_no_faults, (?other, of_ascii ''id''))]"
  have ne: "?other \<noteq> filepath demo_logger"
    by (simp add: demo_logger_def of_ascii_def)
  have h1: "\<not> shutdown_writer ?self" by (simp add: demo_plugin_def)
  have h2: "write_queue ?self = Some (filepath demo_logger, of_ascii ''ls'') # []" by simp
  have h3: "filepath demo_logger \<noteq> []" "of_ascii ''ls'' \<noteq> []"
    by (simp_all add: demo_logger_def of_ascii_def)
  have h5: "open_files demo_writer (filepath demo_logger) \<noteq> None \<or>
            (\<not> makedirs_fails demo_write_error \<and> \<not> open_fails demo_write_error)"
    by (simp add: demo_write_error_def)
  have h6: "write_fails demo_write_error \<or> flush_fails demo_write_error"
    by (simp add: demo_write_error_def)
  have h7: "\<forall>x\<in>set ?others. fst (snd x) \<noteq> filepath demo_logger"
    using ne by simp
  have h8: "\<not> makedirs_fails demo_no_faults \<and> \<not> open_fails demo_no_faults \<and>
            \<not> write_fails demo_no_faults \<and> \<not> flush_fails demo_no_faults"
    by (simp add: demo_no_faults_def)
  have d: "dirname (filepath demo_logger) = of_ascii ''/tmp/terminator_logs''"
    by (simp add: dirname_def demo_logger_def Let_def str_defs)
  let ?w1 = "writer_item demo_write_error demo_writer (filepath demo_logger, of_ascii ''ls'')"
  have w1: "open_files ?w1 ?other = Some 1" "io_log ?w1 = [Write 0 (of_ascii ''ls''), Close 0]"
    "next_handle ?w1 = 2" "files ?w1 (filepath demo_logger) = []"
    using ne by (simp_all add: writer_item_def writer_open_def writer_write_def writer_except_def
          demo_writer_def demo_write_error_def Let_def)
  let ?w2 = "foldl (\<lambda>w x. writer_item (fst x) w (snd x)) ?w1 ?others"
  have w2: "next_handle ?w2 = 2" "files ?w2 (filepath demo_logger) = []"
    using ne w1 by (simp_all add: writer_item_def writer_open_def writer_write_def writer_except_def
          demo_no_faults_def Let_def split: option.splits)
  from write_error_discards_only_that_handle
         [where self = ?self and w = demo_writer and faults = demo_write_error
            and others = ?others and ok = demo_no_faults and later = "of_ascii ''pwd''",
          OF h1 h2 h3 h5 h6 h7 h8]
  obtain v1 v2 v3 where v:
    "writer_iteration demo_write_error (?self, demo_writer) =
       (Continue, ?self\<lparr>write_queue := []\<rparr>, v1)"
    "open_files v1 = (open_files demo_writer)(filepath demo_logger := None)"
    "v2 = foldl (\<lambda>w x. writer_item (fst x) w (snd x)) v1 ?others"
    "open_files v2 (filepath demo_logger) = None"
    "v3 = writer_item demo_no_faults v2 (filepath demo_logger, of_ascii ''pwd'')"
    "io_log v3 = io_log v2 @ [Makedirs (dirname (filepath demo_logger)),
                              Open_append (filepath demo_logger),
                              Write (next_handle v2) (of_ascii ''pwd''), Flush (next_handle v2)]"
    "open_files v3 = (open_files v2)(filepath demo_logger \<mapsto> next_handle v2)"
    "files v3 (filepath demo_logger) = files v2 (filepath demo_logger) @ of_ascii ''pwd''"
    by blast
  have v1: "v1 = ?w1"
    using v(1) h1 h3 by (simp add: writer_iteration_def Let_def)
  have v2: "v2 = ?w2" using v(3) v1 by simp
  show ?thesis
    apply (rule exI[of _ v1], rule exI[of _ v2], rule exI[of _ v3])
    using v v1 v2 w1 w2 d by simp
qed

section \<open>Terminal identifiers: a collision\<close>

lemmas registry_defs =
  get_terminal_id_def init_registry_def new_terminal_id_def
  str_of_int_def str_of_nat.simps str_split.simps demo_timestamp_def Let_def

text \<open>
  C2. The claim: terminals on the same PTY path get the same identifier, and terminals
  on distinct PTY paths get distinct identifiers. A new identifier is made from the
  number of the file descriptor, the text of the path after \<open>/dev/pts/\<close> and the
  timestamp; for a path without \<open>/dev/pts/\<close> the path does not enter the identifier at
  all. Terminal 1 has the file descriptor 20 and the path \<open>/dev/ttys001\<close>; it is closed,
  and terminal 2, opened afterwards, has the file descriptor 20 again and the path
  \<open>/dev/ttys002\<close>: both get the identifier \<open>terminal_20_20240101_120000\<close>. With the
  paths \<open>/dev/pts/3\<close> and \<open>/dev/pts/4\<close> in their place the branch for \<open>/dev/pts/\<close> keeps
  the identifiers apart.
\<close>

theorem distinct_pty_paths_same_identifier:
  "of_ascii ''/dev/ttys001'' \<noteq> of_ascii ''/dev/ttys002'' \<and>
   fst (get_terminal_id (init_registry demo_timestamp) 0 1
          (Pty 20 (Some (of_ascii ''/dev/ttys001'')))) =
     of_ascii ''terminal_20_20240101_120000'' \<and>
   fst (get_terminal_id
          (snd (get_terminal_id (init_registry demo_timestamp) 0 1
                  (Pty 20 (Some (of_ascii ''/dev/ttys001'')))))
          0 2 (Pty 20 (Some (of_ascii ''/dev/ttys002'')))) =
     of_ascii ''terminal_20_20240101_120000'' \<and>
   fst (get_terminal_id (init_registry demo_timestamp) 0 1
          (Pty 20 (Some (of_ascii ''/dev/pts/3'')))) =
     of_ascii ''terminal_20_pts3_20240101_120000'' \<and>
   fst (get_terminal_id
          (snd (get_terminal_id (init_registry demo_timestamp) 0 1
                  (Pty 20 (Some (of_ascii ''/dev/pts/3'')))))
          0 2 (Pty 20 (Some (of_ascii ''/dev/pts/4'')))) =
     of_ascii ''terminal_20_pts4_20240101_120000''"
  by (simp add: registry_defs str_defs)

section \<open>What the error pattern matches\<close>

lemma nullable_lang: "nullable r \<longleftrightarrow> [] \<in> lang r"
  by (induction r) (auto intro: star_nil)

lemma lang_SeqI: "u \<in> lang a \<Longrightarrow> v \<in> lang b \<Longrightarrow> u @ v \<in> lang (Seq a b)"
  by auto

lemma star_cons:
  assumes "x \<in> star L" "x = c # w"
  shows "\<exists>u v. w = u @ v \<and> c # u \<in> L \<and> v \<in> star L"
  using assms
proof (induction arbitrary: w rule: star.induct)
  case star_nil
  then show ?case by simp
next
  case (star_step u v)
  show ?case
  proof (cases u)
    case Nil
    with star_step show ?thesis by simp
  next
    case (Cons d u')
    with star_step.prems have "d = c" "w = u' @ v" by simp_all
    with Cons star_step.hyps show ?thesis by blast
  qed
qed

lemma lang_deriv: "lang (deriv c r) = {w. c # w \<in> lang r}"
proof (induction r)
  case (Seq a b)
  show ?case
  proof (intro set_eqI iffI)
    fix w assume "w \<in> lang (deriv c (Seq a b))"
    then have "(\<exists>u v. w = u @ v \<and> c # u \<in> lang a \<and> v \<in> lang b) \<or> (nullable a \<and> c # w \<in> lang b)"
      using Seq by (auto split: if_splits)
    then show "w \<in> {w. c # w \<in> lang (Seq a b)}"
    proof
      assume "\<exists>u v. w = u @ v \<and> c # u \<in> lang a \<and> v \<in> lang b"
      then obtain u v where uv: "w = u @ v" "c # u \<in> lang a" "v \<in> lang b" by blast
      have "(c # u) @ v \<in> lang (Seq a b)" using uv(2,3) by (rule lang_SeqI)
      with uv(1) show ?thesis by simp
    next
      assume n: "nullable a \<and> c # w \<in> lang b"
      then have "[] \<in> lang a" "c # w \<in> lang b" by (simp_all add: nullable_lang)
      then have "[] @ (c # w) \<in> lang (Seq a b)" by (rule lang_SeqI)
      then show ?thesis by simp
    qed
  next
    fix w assume "w \<in> {w. c # w \<in> lang (Seq a b)}"
    then obtain u v where uv: "c # w = u @ v" "u \<in> lang a" "v \<in> lang b" by auto
    show "w \<in> lang (deriv c (Seq a b))"
    proof (cases u)
      case Nil
      with uv have "nullable a" "c # w \<in> lang b" by (simp_all add: nullable_lang)
      with Seq show ?thesis by simp
    next
      case (Cons d u')
      with uv have "w = u' @ v" "c # u' \<in> lang a" by simp_all
      with uv(3) Seq show ?thesis by auto
    qed
  qed
next
  case (Star a)
  show ?case
  proof (intro set_eqI iffI)
    fix w assume "w \<in> lang (deriv c (Star a))"
    then obtain u v where "w = u @ v" "c # u \<in> lang a" "v \<in> star (lang a)"
      using Star by auto
    then have "(c # u) @ v \<in> star (lang a)" by (intro star_step)
    with \<open>w = u @ v\<close> show "w \<in> {w. c # w \<in> lang (Star a)}" by simp
  next
    fix w assume "w \<in> {w. c # w \<in> lang (Star a)}"
    then have "c # w \<in> star (lang a)" by simp
    from star_cons[OF this refl] Star show "w \<in> lang (deriv c (Star a))" by auto
  qed
qed auto

lemma rx_fullmatch_lang: "rx_fullmatch r s \<longleftrightarrow> s \<in> lang r"
  unfolding rx_fullmatch_def
  by (induction s arbitrary: r) (simp_all add: nullable_lang lang_deriv)

lemma star_all: "list_all p xs \<Longrightarrow> xs \<in> star (lang (Cls p))"
proof (induction xs)
  case Nil
  show ?case by (rule star_nil)
next
  case (Cons x xs)
  then have "[x] \<in> lang (Cls p)" "xs \<in> star (lang (Cls p))" by simp_all
  then have "[x] @ xs \<in> star (lang (Cls p))" by (rule star_step)
  then show ?case by simp
qed

lemma error_pattern_matches:
  assumes "ds \<noteq> []" "list_all (isdecimal_cp db) ds" "list_all isspace_cp ws"
    "g \<in> set lit_error_glyphs"
  shows "re_match_anchored (error_pattern db) (ds @ ws @ [g])"
proof -
  obtain d ds' where ds: "ds = d # ds'" using assms(1) by (cases ds) auto
  with assms(2) have d: "isdecimal_cp db d" "list_all (isdecimal_cp db) ds'" by simp_all
  have "[d] \<in> lang (Cls (isdecimal_cp db))" using d(1) by simp
  moreover have "ds' \<in> lang (Star (Cls (isdecimal_cp db)))"
    using star_all[OF d(2)] by simp
  ultimately have "[d] \<in> lang (Cls (isdecimal_cp db))" "ds' \<in> lang (Star (Cls (isdecimal_cp db)))"
    by blast+
  then have "[d] @ ds' \<in> lang (rx_plus (Cls (isdecimal_cp db)))"
    unfolding rx_plus_def by (rule lang_SeqI)
  then have digits: "ds \<in> lang (rx_plus (Cls (isdecimal_cp db)))" using ds by simp
  have sp: "ws \<in> lang (Star (Cls isspace_cp))" "[] \<in> lang (Star (Cls isspace_cp))"
    using star_all[OF assms(3)] star_nil[of "lang (Cls isspace_cp)"] by simp_all
  have gl: "[g] \<in> lang (Cls (\<lambda>c. c \<in> set lit_error_glyphs))" using assms(4) by simp
  note t1 = lang_SeqI[OF gl sp(2)]
  note t2 = lang_SeqI[OF sp(1) t1]
  note t3 = lang_SeqI[OF digits t2]
  note t4 = lang_SeqI[OF sp(2) t3]
  have "ds @ ws @ [g] \<in> lang (error_pattern db)"
    unfolding error_pattern_def using t4 by simp
  then show ?thesis by (simp add: re_match_anchored_def rx_fullmatch_lang)
qed

section \<open>Empty prompts\<close>

lemma rfind_none_iff: "(str_rfind s sub = None) = (str_find s sub = None)"
  by (induction s) (auto split: option.splits)

lemma rfind_append_left:
  "str_rfind s sub = Some i \<Longrightarrow> str_rfind (pre @ s) sub = Some (length pre + i)"
  by (induction pre) auto

lemma find_append_left: "str_find s sub \<noteq> None \<Longrightarrow> str_find (pre @ s) sub \<noteq> None"
  by (induction pre) auto

lemma rfind_marker_here:
  assumes "a \<noteq> 32" "\<not> str_contains rest [a, 32]"
  shows "str_rfind ([a, 32] @ rest) [a, 32] = Some 0"
proof -
  have "str_rfind rest [a, 32] = None"
    using assms(2) by (simp add: rfind_none_iff str_contains_def)
  then have "str_rfind (32 # rest) [a, 32] = None"
    using assms(1) by (simp add: str_startswith_def)
  then show ?thesis by (simp add: str_startswith_def)
qed

lemma rsplit1_marker:
  assumes "a \<noteq> 32" "\<not> str_contains rest [a, 32]"
  shows "str_contains (pre @ [a, 32] @ rest) [a, 32] \<and>
         str_rsplit1 (pre @ [a, 32] @ rest) [a, 32] = [pre, rest]"
proof -
  have r: "str_rfind (pre @ [a, 32] @ rest) [a, 32] = Some (length pre + 0)"
    using rfind_marker_here[OF assms] by (rule rfind_append_left)
  then have "str_rfind (pre @ [a, 32] @ rest) [a, 32] \<noteq> None" by simp
  then have "str_contains (pre @ [a, 32] @ rest) [a, 32]"
    by (simp add: rfind_none_iff str_contains_def)
  moreover have "str_rsplit1 (pre @ [a, 32] @ rest) [a, 32] = [pre, rest]"
    using r by (simp add: str_rsplit1_def)
  ultimately show ?thesis by simp
qed

lemma suffix_loop_later:
  "suffix_loop db stripped rest \<Longrightarrow> suffix_loop db stripped (x # rest)"
  by (simp add: Let_def)

lemma suffix_loop_here:
  assumes "a \<noteq> 32" "\<not> str_contains rest [a, 32]"
    "re_match_anchored (error_pattern db) (str_strip rest)"
  shows "suffix_loop db (pre @ [a, 32] @ rest) ([a, 32] # others)"
  using rsplit1_marker[OF assms(1,2), of pre] assms(3) by (simp add: Let_def)

lemma is_empty_prompt_marker:
  assumes "marker = of_ascii ''$ '' \<or> marker = of_ascii ''# ''"
    "s = pre @ marker @ rest" "\<not> str_contains rest marker"
    "re_match_anchored (error_pattern db) (str_strip rest)"
  shows "suffix_loop db s [of_ascii ''$ '', of_ascii ''# '']"
proof -
  have d: "of_ascii ''$ '' = [36, 32]" and h: "of_ascii ''# '' = [35, 32]"
    by (simp_all add: of_ascii_def)
  from assms(1) show ?thesis
  proof
    assume m: "marker = of_ascii ''$ ''"
    have "suffix_loop db (pre @ [36, 32] @ rest) ([36, 32] # [[35, 32]])"
      using assms(3,4) m by (intro suffix_loop_here) (simp_all add: d)
    then show ?thesis
      using assms(2) m by (simp add: d h del: suffix_loop.simps)
  next
    assume m: "marker = of_ascii ''# ''"
    have "suffix_loop db (pre @ [35, 32] @ rest) ([35, 32] # [])"
      using assms(3,4) m by (intro suffix_loop_here) (simp_all add: h)
    then have "suffix_loop db (pre @ [35, 32] @ rest) ([36, 32] # [35, 32] # [])"
      by (rule suffix_loop_later)
    then show ?thesis
      using assms(2) m by (simp add: d h del: suffix_loop.simps)
  qed
qed

lemma is_empty_prompt_stripped:
  "is_empty_prompt db (str_strip l) =
     (str_strip l = [] \<or> str_strip l = lit_corner \<or>
      (str_startswith (str_strip l) lit_corner \<and>
        (str_strip (drop 3 (str_strip l)) = [] \<or>
         re_match_anchored (error_pattern db) (str_strip (drop 3 (str_strip l))))) \<or>
      suffix_loop db (str_strip l) [of_ascii ''$ '', of_ascii ''# ''])"
  by (auto simp: is_empty_prompt_def strip_idem Let_def)

lemma filter_step_empty_prompt:
  "is_empty_prompt db (str_strip l) \<Longrightarrow> snd (filter_step db (sk, acc) l) = acc"
  by (simp add: filter_step_def Let_def)

lemma filter_step_kept:
  "snd (filter_step db (sk, acc) l) = acc \<or>
   (snd (filter_step db (sk, acc) l) = acc @ [str_rstrip l] \<and> \<not> is_empty_prompt db (str_strip l))"
  by (simp add: filter_step_def Let_def)

lemma foldl_filter_step_no_empty_prompt:
  "\<forall>e\<in>set acc. \<not> is_empty_prompt db (str_strip e) \<Longrightarrow>
   \<forall>e\<in>set (snd (foldl (filter_step db) (sk, acc) ls)). \<not> is_empty_prompt db (str_strip e)"
proof (induction ls arbitrary: sk acc)
  case Nil
  then show ?case by simp
next
  case (Cons l ls)
  obtain sk1 a1 where s1: "filter_step db (sk, acc) l = (sk1, a1)"
    by (cases "filter_step db (sk, acc) l")
  have "\<forall>e\<in>set a1. \<not> is_empty_prompt db (str_strip e)"
    using filter_step_kept[of db sk acc l] s1 Cons.prems by (auto simp: strip_rstrip)
  from Cons.IH[OF this, of sk1] s1 show ?case by simp
qed

text \<open>
  C5, as the code has it. A line is an empty prompt when its stripped text is the
  prompt corner alone, or when the text after its last "$ " or "# " is, apart from
  surrounding whitespace, a number, optional whitespace and one failure glyph of the
  error pattern. Such a line is classified as an empty prompt, adds nothing to the
  filtered lines in any state of the loop, and so never appears in a chunk, whatever
  lines come before or after it; no line of a chunk is an empty prompt.
\<close>

theorem empty_prompt_never_emitted:
  assumes "str_strip l = lit_corner \<or>
           ((marker = of_ascii ''$ '' \<or> marker = of_ascii ''# '') \<and>
            str_strip l = pre @ marker @ rest \<and> \<not> str_contains rest marker \<and>
            str_strip rest = ds @ ws @ [g] \<and> ds \<noteq> [] \<and> list_all (isdecimal_cp db) ds \<and>
            list_all isspace_cp ws \<and> g \<in> set lit_error_glyphs)"
  shows "is_empty_prompt db (str_strip l) \<and>
         snd (filter_step db (skip, acc) l) = acc \<and>
         str_rstrip l \<notin> set (filter_lines db ls) \<and>
         (\<forall>e\<in>set (filter_lines db ls). \<not> is_empty_prompt db (str_strip e))"
proof -
  have e: "is_empty_prompt db (str_strip l)"
    using assms is_empty_prompt_marker[of marker "str_strip l" pre rest db]
      error_pattern_matches[of ds db ws g]
    unfolding is_empty_prompt_stripped by metis
  have all: "\<forall>e\<in>set (filter_lines db ls). \<not> is_empty_prompt db (str_strip e)"
    unfolding filter_lines_def by (rule foldl_filter_step_no_empty_prompt) simp
  have "str_rstrip l \<notin> set (filter_lines db ls)"
    using all e by (auto simp: strip_rstrip)
  with e all filter_step_empty_prompt[OF e] show ?thesis by simp
qed

text \<open>
  A prompt with trailing spaces only, and a prompt with the exit status 130 and a glyph
  of the error pattern, among other lines: neither is in the chunk.
\<close>

theorem empty_prompt_never_emitted_witness:
  "is_empty_prompt ascii_ucd (str_strip (lit_corner @ of_ascii ''  '')) \<and>
   is_empty_prompt ascii_ucd (str_strip (lit_corner @ of_ascii '' 130 '' @ [hd lit_error_glyphs])) \<and>
   filter_lines ascii_ucd
     [lit_corner @ of_ascii ''  '', lit_corner @ of_ascii '' ls'', of_ascii ''a.txt'',
      lit_corner @ of_ascii '' 130 '' @ [hd lit_error_glyphs], lit_corner] =
     [lit_corner @ of_ascii '' ls'', of_ascii ''a.txt'']"
proof -
  have s1: "str_strip (lit_corner @ of_ascii ''  '') = lit_corner"
    by (simp add: str_defs lit_defs)
  have s2: "str_strip (lit_corner @ of_ascii '' 130 '' @ [hd lit_error_glyphs]) =
              butlast lit_corner @ of_ascii ''# '' @ (of_ascii ''130 '' @ [hd lit_error_glyphs])"
    by (simp add: str_defs lit_defs)
  have s3: "\<not> str_contains (of_ascii ''130 '' @ [hd lit_error_glyphs]) (of_ascii ''# '')"
    by (simp add: str_defs lit_defs)
  have s4: "str_strip (of_ascii ''130 '' @ [hd lit_error_glyphs]) =
              of_ascii ''130'' @ of_ascii '' '' @ [hd lit_error_glyphs]"
    by (simp add: str_defs lit_defs)
  have s5: "of_ascii ''130'' \<noteq> []" "list_all (isdecimal_cp ascii_ucd) (of_ascii ''130'')"
    "list_all isspace_cp (of_ascii '' '')" "hd lit_error_glyphs \<in> set lit_error_glyphs"
    by (simp_all add: ascii_ucd_def str_defs lit_defs)
  have s6: "str_strip lit_corner = lit_corner"
    by (simp add: str_defs lit_defs)
  note t1 = empty_prompt_never_emitted[of "lit_corner @ of_ascii ''  ''" _ _ _ _ _ _ ascii_ucd]
  note t2 = empty_prompt_never_emitted
              [of "lit_corner @ of_ascii '' 130 '' @ [hd lit_error_glyphs]" "of_ascii ''# ''"
                  "butlast lit_corner" "of_ascii ''130 '' @ [hd lit_error_glyphs]"
                  "of_ascii ''130''" "of_ascii '' ''" "hd lit_error_glyphs" ascii_ucd]
  note t3 = empty_prompt_never_emitted[of lit_corner _ _ _ _ _ _ ascii_ucd]
  have d1: "snd (filter_step ascii_ucd (sk, a) (lit_corner @ of_ascii ''  '')) = a" for sk a
    using t1 s1 by blast
  have d2: "snd (filter_step ascii_ucd (sk, a) (lit_corner @ of_ascii '' 130 '' @ [hd lit_error_glyphs])) = a"
    for sk a
    using t2 s2 s3 s4 s5 by blast
  have d3: "snd (filter_step ascii_ucd (sk, a) lit_corner) = a" for sk a
    using t3 s6 by blast
  have k1: "filter_step ascii_ucd (False, a) (lit_corner @ of_ascii '' ls'') =
              (False, a @ [lit_corner @ of_ascii '' ls''])" for a
    by (simp add: classifier_defs rx_defs str_defs lit_defs)
  have k2: "filter_step ascii_ucd (False, a) (of_ascii ''a.txt'') = (False, a @ [of_ascii ''a.txt''])" for a
    by (simp add: classifier_defs rx_defs str_defs lit_defs)
  have f1: "fst (filter_step ascii_ucd (False, a) (lit_corner @ of_ascii ''  '')) = False" for a
    by (simp add: classifier_defs rx_defs str_defs lit_defs)
  have f2: "fst (filter_step ascii_ucd (False, a) (lit_corner @ of_ascii '' 130 '' @ [hd lit_error_glyphs])) = False"
    for a
    by (simp add: filter_step_def is_context_command_def looks_like_prompt_iff Let_def str_defs lit_defs)
  have p1: "filter_step ascii_ucd (False, a) (lit_corner @ of_ascii ''  '') = (False, a)" for a
    using d1[of False a] f1[of a] by (simp add: prod_eq_iff)
  have p2: "filter_step ascii_ucd (False, a) (lit_corner @ of_ascii '' 130 '' @ [hd lit_error_glyphs]) = (False, a)"
    for a
    using d2[of False a] f2[of a] by (simp add: prod_eq_iff)
  have "filter_lines ascii_ucd
     [lit_corner @ of_ascii ''  '', lit_corner @ of_ascii '' ls'', of_ascii ''a.txt'',
      lit_corner @ of_ascii '' 130 '' @ [hd lit_error_glyphs], lit_corner] =
     [lit_corner @ of_ascii '' ls'', of_ascii ''a.txt'']"
    unfolding filter_lines_def using p1 k1 k2 p2 d3 by simp
  moreover have "is_empty_prompt ascii_ucd (str_strip (lit_corner @ of_ascii ''  ''))"
    using t1 s1 by blast
  moreover have "is_empty_prompt ascii_ucd (str_strip (lit_corner @ of_ascii '' 130 '' @ [hd lit_error_glyphs]))"
    using t2 s2 s3 s4 s5 by blast
  ultimately show ?thesis by simp
qed

text \<open>
  The claim as written fails for the prompt lines that the classifier accepts by the
  top bar. The top bar alone is a prompt with nothing after its marker, and the top
  line of a two-line prompt (top bar, user, skull, host, directory) carries no command;
  neither is an empty prompt for \<open>_is_empty_prompt\<close>, and each is in the chunk although
  the next line is a prompt again.
\<close>

theorem top_bar_prompt_without_command_emitted:
  "looks_like_prompt (str_strip lit_top) \<and>
   looks_like_prompt (str_strip lit_corner) \<and>
   \<not> is_empty_prompt ascii_ucd (str_strip lit_top) \<and>
   filter_lines ascii_ucd [lit_top, lit_corner] = [lit_top] \<and>
   looks_like_prompt (str_strip (lit_top @ of_ascii ''(root'' @ lit_skull @ of_ascii ''kali)-[~]'')) \<and>
   \<not> is_empty_prompt ascii_ucd
       (str_strip (lit_top @ of_ascii ''(root'' @ lit_skull @ of_ascii ''kali)-[~]'')) \<and>
   filter_lines ascii_ucd
     [lit_top @ of_ascii ''(root'' @ lit_skull @ of_ascii ''kali)-[~]'', lit_corner] =
     [lit_top @ of_ascii ''(root'' @ lit_skull @ of_ascii ''kali)-[~]'']"
proof -
  have p1: "looks_like_prompt (str_strip lit_top)"
    and p2: "looks_like_prompt (str_strip lit_corner)"
    and p3: "looks_like_prompt (str_strip (lit_top @ of_ascii ''(root'' @ lit_skull @ of_ascii ''kali)-[~]''))"
    by (simp_all add: looks_like_prompt_iff str_defs lit_defs)
  have e1: "\<not> is_empty_prompt ascii_ucd (str_strip lit_top)"
    and e2: "\<not> is_empty_prompt ascii_ucd
       (str_strip (lit_top @ of_ascii ''(root'' @ lit_skull @ of_ascii ''kali)-[~]''))"
    by (simp_all add: is_empty_prompt_def Let_def ascii_ucd_def rx_defs str_defs lit_defs)
  have f1: "filter_lines ascii_ucd [lit_top, lit_corner] = [lit_top]"
    by (simp add: classifier_defs rx_defs str_defs lit_defs)
  have f2: "filter_lines ascii_ucd
     [lit_top @ of_ascii ''(root'' @ lit_skull @ of_ascii ''kali)-[~]'', lit_corner] =
     [lit_top @ of_ascii ''(root'' @ lit_skull @ of_ascii ''kali)-[~]'']"
    by (simp add: classifier_defs rx_defs str_defs lit_defs)
  from p1 p2 p3 e1 e2 f1 f2 show ?thesis by simp
qed

end
